theory Spec2Isabelle
  imports Complex_Main
begin

section \<open>Arithmetic of the filter\<close>

text \<open>
  The filter computes in two floating-point types: \<open>float\<close> for the stored members and
  \<open>double\<close> for the accumulators of the loops. The model does not fix their semantics.
  Every operation the source performs is a field of the record \<open>arith\<close>, over a type
  \<open>'f\<close> of float values and a type \<open>'d\<close> of double values, and every conversion the C++
  rules insert (float to double at a mixed operation, double to float at a store into a
  float) is written out as \<open>d_of_f\<close> or \<open>f_of_d\<close>. A theorem stated for an arbitrary
  \<open>A\<close> therefore holds for IEEE 754 arithmetic with its rounding, infinities and NaN,
  and for exact arithmetic alike; a theorem that needs a law of arithmetic names it as a
  hypothesis. Each operation is taken in the type the C++ conversion rules give it; an
  implementation that evaluates in a wider format, or fuses a product into a sum, is
  outside the model.
\<close>

record ('f, 'd) arith =
  f_zero :: 'f
  f_one :: 'f
  d_zero :: 'd
  d_one :: 'd
  d_of_f :: "'f \<Rightarrow> 'd"
  f_of_d :: "'d \<Rightarrow> 'f"
  fneg :: "'f \<Rightarrow> 'f"
  fmul :: "'f \<Rightarrow> 'f \<Rightarrow> 'f"
  fsub :: "'f \<Rightarrow> 'f \<Rightarrow> 'f"
  dadd :: "'d \<Rightarrow> 'd \<Rightarrow> 'd"
  dsub :: "'d \<Rightarrow> 'd \<Rightarrow> 'd"
  dmul :: "'d \<Rightarrow> 'd \<Rightarrow> 'd"
  ddiv :: "'d \<Rightarrow> 'd \<Rightarrow> 'd"

text \<open>
  Exact arithmetic over the reals, with no rounding: the instance at which concrete runs
  are evaluated. Its division by zero is HOL's (\<open>x / 0 = 0\<close>), so statements about it keep
  away from a zero divisor.
\<close>

definition exact_arith :: "(real, real) arith" where
  "exact_arith =
     \<lparr> f_zero = 0, f_one = 1, d_zero = 0, d_one = 1,
       d_of_f = (\<lambda>x. x), f_of_d = (\<lambda>x. x),
       fneg = uminus, fmul = (*), fsub = (-),
       dadd = (+), dsub = (-), dmul = (*), ddiv = (/) \<rparr>"

text \<open>
  Exact arithmetic with one value more, \<open>None\<close>, that is not a finite number: a division
  by zero gives it, and an operation with it as an operand gives it. This is what
  becomes of an infinity or a NaN of IEEE 754 in the operations of the filter that
  matter below (\<open>1.0 / 0.0\<close> is an infinity, and zero times an infinity is a NaN).
\<close>

definition lift2 :: "(real \<Rightarrow> real \<Rightarrow> real) \<Rightarrow> real option \<Rightarrow> real option \<Rightarrow> real option" where
  "lift2 f x y = (case x of None \<Rightarrow> None | Some a \<Rightarrow> (case y of None \<Rightarrow> None | Some b \<Rightarrow> Some (f a b)))"

definition partial_div :: "real option \<Rightarrow> real option \<Rightarrow> real option" where
  "partial_div x y =
     (case x of
        None \<Rightarrow> None
      | Some a \<Rightarrow> (case y of None \<Rightarrow> None | Some b \<Rightarrow> if b = 0 then None else Some (a / b)))"

definition partial_arith :: "(real option, real option) arith" where
  "partial_arith =
     \<lparr> f_zero = Some 0, f_one = Some 1, d_zero = Some 0, d_one = Some 1,
       d_of_f = (\<lambda>x. x), f_of_d = (\<lambda>x. x),
       fneg = map_option uminus, fmul = lift2 (*), fsub = lift2 (-),
       dadd = lift2 (+), dsub = lift2 (-), dmul = lift2 (*), ddiv = partial_div \<rparr>"



section \<open>The filter object\<close>

text \<open>\<open>const int max_wapl_filt_order = 32;\<close> (waplns.hpp). The \<open>int\<close> members and loop
  counters are modelled as unbounded integers: the only arithmetic on them is \<open>std::min\<close>
  and \<open>++i\<close> below a bound of at most 32, which cannot overflow.\<close>

definition max_wapl_filt_order :: int where
  "max_wapl_filt_order = 32"

text \<open>The members of \<open>class waplns\<close>. A trailing underscore is not a legal name here, so
  \<open>order_\<close> is \<open>order_m\<close>, and so on. The arrays \<open>k_\<close> and \<open>t_\<close> are lists, of length 32 in
  every object (\<open>arrays_ok\<close>).\<close>

record 'f waplns =
  order_m :: int
  lambda_m :: 'f
  k_m :: "'f list"
  s1_m :: 'f
  s2_m :: 'f
  t_m :: "'f list"
  next_u_m :: 'f

definition arrays_ok :: "'f waplns \<Rightarrow> bool" where
  "arrays_ok s \<longleftrightarrow>
     int (length (k_m s)) = max_wapl_filt_order \<and> int (length (t_m s)) = max_wapl_filt_order"

text \<open>
  The source has no error return. What the model reports as an error is undefined
  behaviour of the C++: an index outside a 32-element array (\<open>k_\<close>, \<open>t_\<close>, or the local
  \<open>temp\<close> of the iterator overload), a read past the end of the coefficients the caller
  supplied, or the failed \<open>assert\<close> of the accessor \<open>k\<close>.
\<close>

datatype error = OutOfBounds | InputOverrun | AssertionFailed

definition arr_get :: "'a list \<Rightarrow> int \<Rightarrow> error + 'a" where
  "arr_get xs i =
     (if 0 \<le> i \<and> i < max_wapl_filt_order then Inr (xs ! nat i) else Inl OutOfBounds)"

definition arr_set :: "'a list \<Rightarrow> int \<Rightarrow> 'a \<Rightarrow> error + 'a list" where
  "arr_set xs i v =
     (if 0 \<le> i \<and> i < max_wapl_filt_order then Inr (xs[nat i := v]) else Inl OutOfBounds)"

text \<open>\<open>newk[i]\<close>: a read through the caller's pointer, good for as many elements as the
  caller supplied.\<close>

definition ptr_get :: "'a list \<Rightarrow> int \<Rightarrow> error + 'a" where
  "ptr_get xs i =
     (if 0 \<le> i \<and> i < int (length xs) then Inr (xs ! nat i) else Inl InputOverrun)"

text \<open>\<open>for (int i = i0; i < n; ++i) body\<close>, stopping at the first error.\<close>

function for_loop :: "int \<Rightarrow> int \<Rightarrow> (int \<Rightarrow> 'a \<Rightarrow> error + 'a) \<Rightarrow> 'a \<Rightarrow> error + 'a" where
  "for_loop i n body acc =
     (if i < n then
        (case body i acc of
           Inl e \<Rightarrow> Inl e
         | Inr acc' \<Rightarrow> for_loop (i + 1) n body acc')
      else Inr acc)"
  by pat_completeness auto
termination
  by (relation "measure (\<lambda>(i, n, body, acc). nat (n - i))") auto

declare for_loop.simps [simp del]

text \<open>The constructor \<open>waplns() : order_(0), lambda_(0), s1_(1), s2_(1), next_u_(0) {}\<close>
  initialises neither array: their indeterminate contents are the arguments \<open>k0\<close> and
  \<open>t0\<close>.\<close>

definition waplns_ctor :: "('f, 'd) arith \<Rightarrow> 'f list \<Rightarrow> 'f list \<Rightarrow> 'f waplns" where
  "waplns_ctor A k0 t0 =
     \<lparr> order_m = 0, lambda_m = f_zero A, k_m = k0, s1_m = f_one A, s2_m = f_one A,
       t_m = t0, next_u_m = f_zero A \<rparr>"

subsection \<open>The helpers of waplns.cpp\<close>

text \<open>\<open>lattice_step\<close> is instantiated at \<open>T = double\<close> only; its third parameter has the
  type \<open>identity<T>::type\<close>, that is \<open>double\<close>, so a float coefficient is widened at the
  call. References are modelled by returning the new values.\<close>

definition lattice_step :: "('f, 'd) arith \<Rightarrow> 'd \<times> 'd \<Rightarrow> 'd \<Rightarrow> 'd \<times> 'd" where
  "lattice_step A ab k =
     (let a = fst ab; b = snd ab;
          ak = dmul A a k;
          a' = dsub A a (dmul A b k);
          b' = dsub A b ak
      in (a', b'))"

text \<open>\<open>apply_D_alter_t(io, t, lambda)\<close> returns the new \<open>io\<close> and the new \<open>t\<close>.\<close>

definition apply_D_alter_t :: "('f, 'd) arith \<Rightarrow> 'd \<Rightarrow> 'f \<Rightarrow> 'f \<Rightarrow> 'd \<times> 'f" where
  "apply_D_alter_t A io t lam =
     (let next_t = f_of_d A (dadd A io (d_of_f A (fmul A lam t)));
          io' = d_of_f A (fsub A t (fmul A lam next_t))
      in (io', next_t))"

text \<open>\<open>apply_D_keep_t(io, t, lambda)\<close> takes \<open>t\<close> by value and returns the new \<open>io\<close>.\<close>

definition apply_D_keep_t :: "('f, 'd) arith \<Rightarrow> 'd \<Rightarrow> 'f \<Rightarrow> 'f \<Rightarrow> 'd" where
  "apply_D_keep_t A io t lam =
     (let next_t = f_of_d A (dadd A io (d_of_f A (fmul A lam t)))
      in d_of_f A (fsub A t (fmul A lam next_t)))"

subsection \<open>precompute_derived_params\<close>

definition precompute_body ::
  "('f, 'd) arith \<Rightarrow> 'd \<Rightarrow> 'f list \<Rightarrow> int \<Rightarrow> 'd \<times> 'd \<Rightarrow> error + 'd \<times> 'd" where
  "precompute_body A negative_lam ks i ab =
     (case arr_get ks i of
        Inl e \<Rightarrow> Inl e
      | Inr ki \<Rightarrow> Inr (lattice_step A (fst ab, dmul A (snd ab) negative_lam) (d_of_f A ki)))"

definition precompute_derived_params :: "('f, 'd) arith \<Rightarrow> 'f waplns \<Rightarrow> error + 'f waplns" where
  "precompute_derived_params A s =
     (let negative_lam = d_of_f A (fneg A (lambda_m s)) in
      case for_loop 0 (order_m s) (precompute_body A negative_lam (k_m s)) (d_one A, d_one A) of
        Inl e \<Rightarrow> Inl e
      | Inr ab \<Rightarrow> Inr (s\<lparr> s1_m := f_one A, s2_m := f_of_d A (ddiv A (d_one A) (fst ab)) \<rparr>))"

subsection \<open>set_params\<close>

text \<open>\<open>this->k_[i] = newk[i];\<close>\<close>

definition copy_body :: "'f list \<Rightarrow> int \<Rightarrow> 'f list \<Rightarrow> error + 'f list" where
  "copy_body newk i ks =
     (case ptr_get newk i of
        Inl e \<Rightarrow> Inl e
      | Inr v \<Rightarrow> arr_set ks i v)"

text \<open>\<open>t_[i] = 0;\<close>\<close>

definition zero_body :: "('f, 'd) arith \<Rightarrow> int \<Rightarrow> 'f list \<Rightarrow> error + 'f list" where
  "zero_body A i ts = arr_set ts i (f_zero A)"

text \<open>The second loop of \<open>set_params\<close>: the pair is \<open>(nua, nub)\<close>.\<close>

definition feedback_body ::
  "('f, 'd) arith \<Rightarrow> 'f \<Rightarrow> 'f list \<Rightarrow> 'f list \<Rightarrow> int \<Rightarrow> 'd \<times> 'd \<Rightarrow> error + 'd \<times> 'd" where
  "feedback_body A lam ks ts i nu =
     (case arr_get ks i of
        Inl e \<Rightarrow> Inl e
      | Inr ki \<Rightarrow>
          (case arr_get ts i of
             Inl e \<Rightarrow> Inl e
           | Inr ti \<Rightarrow>
               Inr (lattice_step A (fst nu, apply_D_keep_t A (snd nu) ti lam) (d_of_f A ki))))"

text \<open>\<open>void waplns::set_params(const float lam, int ord, float const* newk)\<close>\<close>

definition set_params ::
  "('f, 'd) arith \<Rightarrow> 'f \<Rightarrow> int \<Rightarrow> 'f list \<Rightarrow> 'f waplns \<Rightarrow> error + 'f waplns" where
  "set_params A lam ord newk s =
     (let neword = min ord max_wapl_filt_order in
      case for_loop 0 neword (copy_body newk) (k_m s) of
        Inl e \<Rightarrow> Inl e
      | Inr ks \<Rightarrow>
          (case for_loop (order_m s) neword (zero_body A) (t_m s) of
             Inl e \<Rightarrow> Inl e
           | Inr ts \<Rightarrow>
               (case precompute_derived_params A
                       (s\<lparr> k_m := ks, t_m := ts, lambda_m := lam, order_m := neword \<rparr>) of
                  Inl e \<Rightarrow> Inl e
                | Inr s' \<Rightarrow>
                    (case for_loop 0 (order_m s') (feedback_body A lam (k_m s') (t_m s'))
                            (d_zero A, d_zero A) of
                       Inl e \<Rightarrow> Inl e
                     | Inr nu \<Rightarrow>
                         Inr (s'\<lparr> next_u_m :=
                                   f_of_d A (dmul A (fst nu) (d_of_f A (s2_m s'))) \<rparr>)))))"

text \<open>The overload \<open>set_params(float lam, int ord, float* newk)\<close> casts and forwards.\<close>

definition set_params_ptr ::
  "('f, 'd) arith \<Rightarrow> 'f \<Rightarrow> int \<Rightarrow> 'f list \<Rightarrow> 'f waplns \<Rightarrow> error + 'f waplns" where
  "set_params_ptr A lam ord newk s = set_params A lam ord newk s"

text \<open>The template overload. The iterator is the list of the elements it can still
  deliver: \<open>*it\<close> is its head and \<open>++it\<close> its tail. The loop state is the pair of the
  iterator and the local array \<open>temp\<close>, whose indeterminate initial contents are the
  argument \<open>temp0\<close>.\<close>

definition iter_body :: "int \<Rightarrow> 'f list \<times> 'f list \<Rightarrow> error + 'f list \<times> 'f list" where
  "iter_body i st =
     (case fst st of
        [] \<Rightarrow> Inl InputOverrun
      | v # it' \<Rightarrow>
          (case arr_set (snd st) i v of
             Inl e \<Rightarrow> Inl e
           | Inr temp \<Rightarrow> Inr (it', temp)))"

definition set_params_iter ::
  "('f, 'd) arith \<Rightarrow> 'f \<Rightarrow> int \<Rightarrow> 'f list \<Rightarrow> 'f list \<Rightarrow> 'f waplns \<Rightarrow> error + 'f waplns" where
  "set_params_iter A lam ord it temp0 s =
     (let ord' = min ord max_wapl_filt_order in
      case for_loop 0 ord' iter_body (it, temp0) of
        Inl e \<Rightarrow> Inl e
      | Inr st \<Rightarrow> set_params A lam ord' (snd st) s)"

subsection \<open>reset_state\<close>

definition reset_state :: "('f, 'd) arith \<Rightarrow> 'f waplns \<Rightarrow> error + 'f waplns" where
  "reset_state A s =
     (case for_loop 0 (order_m s) (zero_body A) (t_m s) of
        Inl e \<Rightarrow> Inl e
      | Inr ts \<Rightarrow> Inr (s\<lparr> t_m := ts, next_u_m := f_zero A \<rparr>))"

subsection \<open>x_was\<close>

text \<open>The accumulators of the loop of \<open>x_was\<close>, with the array \<open>t_\<close> it updates.\<close>

record ('f, 'd) acc =
  acc_a :: 'd
  acc_b :: 'd
  acc_nua :: 'd
  acc_nub :: 'd
  acc_t :: "'f list"

definition x_was_body ::
  "('f, 'd) arith \<Rightarrow> 'f \<Rightarrow> 'f list \<Rightarrow> int \<Rightarrow> ('f, 'd) acc \<Rightarrow> error + ('f, 'd) acc" where
  "x_was_body A lam ks i c =
     (case arr_get ks i of
        Inl e \<Rightarrow> Inl e
      | Inr ki \<Rightarrow>
          (case arr_get (acc_t c) i of
             Inl e \<Rightarrow> Inl e
           | Inr ti \<Rightarrow>
               (let bt = apply_D_alter_t A (acc_b c) ti lam in
                case arr_set (acc_t c) i (snd bt) of
                  Inl e \<Rightarrow> Inl e
                | Inr ts \<Rightarrow>
                    (case arr_get ts i of
                       Inl e \<Rightarrow> Inl e
                     | Inr ti' \<Rightarrow>
                         (let nub = apply_D_keep_t A (acc_nub c) ti' lam;
                              ab = lattice_step A (acc_a c, fst bt) (d_of_f A ki);
                              nu = lattice_step A (acc_nua c, nub) (d_of_f A ki)
                          in Inr \<lparr> acc_a = fst ab, acc_b = snd ab,
                                   acc_nua = fst nu, acc_nub = snd nu, acc_t = ts \<rparr>)))))"

text \<open>\<open>void waplns::x_was(float x)\<close>\<close>

definition x_was :: "('f, 'd) arith \<Rightarrow> 'f \<Rightarrow> 'f waplns \<Rightarrow> error + 'f waplns" where
  "x_was A x s =
     (let y = dsub A (d_of_f A x) (d_of_f A (next_u_m s));
          a = dmul A y (d_of_f A (s1_m s));
          lam = lambda_m s
      in case for_loop 0 (order_m s) (x_was_body A lam (k_m s))
                \<lparr> acc_a = a, acc_b = a, acc_nua = d_zero A, acc_nub = d_zero A,
                  acc_t = t_m s \<rparr> of
           Inl e \<Rightarrow> Inl e
         | Inr c \<Rightarrow>
             Inr (s\<lparr> t_m := acc_t c,
                     next_u_m := f_of_d A (dmul A (acc_nua c) (d_of_f A (s2_m s))) \<rparr>))"

subsection \<open>The accessors of waplns.hpp\<close>

text \<open>\<open>float warp_gain() const { return 1.0 / s1_ / s2_; }\<close>: two divisions in double,
  the result narrowed to float.\<close>

definition warp_gain :: "('f, 'd) arith \<Rightarrow> 'f waplns \<Rightarrow> 'f" where
  "warp_gain A s =
     f_of_d A (ddiv A (ddiv A (d_one A) (d_of_f A (s1_m s))) (d_of_f A (s2_m s)))"

definition order :: "'f waplns \<Rightarrow> int" where
  "order s = order_m s"

definition lambda :: "'f waplns \<Rightarrow> 'f" where
  "lambda s = lambda_m s"

definition u :: "'f waplns \<Rightarrow> 'f" where
  "u s = next_u_m s"

text \<open>\<open>float k(int idx) const {assert(0<=idx && idx<order_); return k_[idx];}\<close>, the
  accessor \<open>k\<close> of the class, in a build that keeps the assertion.\<close>

definition k_coef :: "'f waplns \<Rightarrow> int \<Rightarrow> error + 'f" where
  "k_coef s idx =
     (if 0 \<le> idx \<and> idx < order_m s then arr_get (k_m s) idx else Inl AssertionFailed)"

subsection \<open>Call sequences\<close>

text \<open>A history of calls on one object, run from left to right until the first error.\<close>

datatype 'f call =
    SetParams 'f int "'f list"
  | SetParamsIter 'f int "'f list" "'f list"
  | ResetState
  | XWas 'f

fun call_step :: "('f, 'd) arith \<Rightarrow> 'f call \<Rightarrow> 'f waplns \<Rightarrow> error + 'f waplns" where
  "call_step A (SetParams lam ord newk) s = set_params A lam ord newk s"
| "call_step A (SetParamsIter lam ord it temp0) s = set_params_iter A lam ord it temp0 s"
| "call_step A ResetState s = reset_state A s"
| "call_step A (XWas x) s = x_was A x s"

fun run :: "('f, 'd) arith \<Rightarrow> 'f call list \<Rightarrow> 'f waplns \<Rightarrow> error + 'f waplns" where
  "run A [] s = Inr s"
| "run A (c # cs) s =
     (case call_step A c s of
        Inl e \<Rightarrow> Inl e
      | Inr s' \<Rightarrow> run A cs s')"

fun order_nonneg :: "'f call \<Rightarrow> bool" where
  "order_nonneg (SetParams lam ord newk) \<longleftrightarrow> 0 \<le> ord"
| "order_nonneg (SetParamsIter lam ord it temp0) \<longleftrightarrow> 0 \<le> ord"
| "order_nonneg ResetState \<longleftrightarrow> True"
| "order_nonneg (XWas x) \<longleftrightarrow> True"

section \<open>The recurrences as the specification words them\<close>

text \<open>
  The specification describes the two recurrences stage by stage, without arrays or
  indices. They are written here over the list of the active coefficients (and, for the
  per-sample update, the list of the active delay entries), with the conversions of the
  source, and are compared with the loops of the source below.
\<close>

text \<open>Section 4.2: for each stage, multiply \<open>b\<close> by \<open>-lambda\<close>, then
  \<open>ak = a * k[i]; a = a - b*k[i]; b = b - ak\<close>.\<close>

fun steady_state :: "('f, 'd) arith \<Rightarrow> 'f \<Rightarrow> 'f list \<Rightarrow> 'd \<times> 'd \<Rightarrow> 'd \<times> 'd" where
  "steady_state A lam [] ab = ab"
| "steady_state A lam (ki # ks) ab =
     (let a = fst ab;
          b = dmul A (snd ab) (d_of_f A (fneg A lam));
          ak = dmul A a (d_of_f A ki);
          a' = dsub A a (dmul A b (d_of_f A ki));
          b' = dsub A b ak
      in steady_state A lam ks (a', b'))"

text \<open>The accumulator \<open>a\<close> of section 4.2, started from \<open>a = 1\<close>, \<open>b = 1\<close>.\<close>

definition steady_a :: "('f, 'd) arith \<Rightarrow> 'f \<Rightarrow> 'f list \<Rightarrow> 'd" where
  "steady_a A lam ks = fst (steady_state A lam ks (d_one A, d_one A))"

text \<open>Section 4.3, step 3, for the stages that remain: the result is the final
  \<open>(a, b, nua, nub)\<close> and the new delay entries of these stages. Each stage computes
  \<open>next_t = b + lambda*t; b = t - lambda*next_t\<close> and stores \<open>next_t\<close> as the stage's
  delay, passes \<open>nub\<close> through the same all-pass against the stage's delay without storing
  again, and applies the butterfly to \<open>(a, b)\<close> and to \<open>(nua, nub)\<close>.\<close>

fun x_was_stages ::
  "('f, 'd) arith \<Rightarrow> 'f \<Rightarrow> 'f list \<Rightarrow> 'f list \<Rightarrow> 'd \<times> 'd \<times> 'd \<times> 'd \<Rightarrow>
     ('d \<times> 'd \<times> 'd \<times> 'd) \<times> 'f list" where
  "x_was_stages A lam (ki # ks) (ti # ts) (a, b, nua, nub) =
     (let next_t = f_of_d A (dadd A b (d_of_f A (fmul A lam ti)));
          b1 = d_of_f A (fsub A ti (fmul A lam next_t));
          nnext = f_of_d A (dadd A nub (d_of_f A (fmul A lam next_t)));
          nub1 = d_of_f A (fsub A next_t (fmul A lam nnext));
          ak = dmul A a (d_of_f A ki);
          a' = dsub A a (dmul A b1 (d_of_f A ki));
          b' = dsub A b1 ak;
          nuak = dmul A nua (d_of_f A ki);
          nua' = dsub A nua (dmul A nub1 (d_of_f A ki));
          nub' = dsub A nub1 nuak;
          rest = x_was_stages A lam ks ts (a', b', nua', nub')
      in (fst rest, next_t # snd rest))"
| "x_was_stages A lam [] ts acc = (acc, [])"
| "x_was_stages A lam (ki # ks) [] acc = (acc, [])"

text \<open>Section 4.3, steps 1 to 4, on the object.\<close>

definition x_was_spec :: "('f, 'd) arith \<Rightarrow> 'f \<Rightarrow> 'f waplns \<Rightarrow> 'f waplns" where
  "x_was_spec A x s =
     (let n = nat (order_m s);
          y = dsub A (d_of_f A x) (d_of_f A (next_u_m s));
          a = dmul A y (d_of_f A (s1_m s));
          r = x_was_stages A (lambda_m s) (take n (k_m s)) (take n (t_m s))
                (a, a, d_zero A, d_zero A);
          nua = fst (snd (snd (fst r)))
      in s\<lparr> t_m := snd r @ drop n (t_m s),
             next_u_m := f_of_d A (dmul A nua (d_of_f A (s2_m s))) \<rparr>)"

section \<open>Laws of arithmetic that some properties need\<close>

text \<open>Conversions and operations on the constants 0 and 1 are exact. IEEE 754 arithmetic
  satisfies these.\<close>

definition unit_laws :: "('f, 'd) arith \<Rightarrow> bool" where
  "unit_laws A \<longleftrightarrow>
     ddiv A (d_one A) (d_one A) = d_one A \<and>
     f_of_d A (d_one A) = f_one A \<and>
     d_of_f A (f_one A) = d_one A \<and>
     dmul A (d_zero A) (d_one A) = d_zero A \<and>
     f_of_d A (d_zero A) = f_zero A"


section \<open>Loops\<close>

text \<open>The loop rule: an invariant that every iteration keeps, and a condition on the errors
  an iteration may give, carry over to the whole loop.\<close>

lemma for_loop_done: "n \<le> i \<Longrightarrow> for_loop i n body acc = Inr acc"
  by (simp add: for_loop.simps)

lemma for_loop_step:
  "i < n \<Longrightarrow> for_loop i n body acc =
     (case body i acc of Inl e \<Rightarrow> Inl e | Inr acc' \<Rightarrow> for_loop (i + 1) n body acc')"
  by (subst for_loop.simps) simp

lemma for_loop_rule:
  assumes "I i acc"
    and "\<And>j c. i \<le> j \<Longrightarrow> j < n \<Longrightarrow> I j c \<Longrightarrow>
           (case body j c of Inl e \<Rightarrow> E e | Inr c' \<Rightarrow> I (j + 1) c')"
  shows "case for_loop i n body acc of Inl e \<Rightarrow> E e | Inr c' \<Rightarrow> I (max i n) c'"
  using assms
proof (induction i n body acc rule: for_loop.induct)
  case (1 i n body acc)
  show ?case
  proof (cases "i < n")
    case False
    then show ?thesis using "1.prems"(1) by (simp add: for_loop_done max_def)
  next
    case True
    have st: "case body i acc of Inl e \<Rightarrow> E e | Inr c' \<Rightarrow> I (i + 1) c'"
      using "1.prems"(2)[of i acc] True "1.prems"(1) by simp
    show ?thesis
    proof (cases "body i acc")
      case (Inl e)
      then show ?thesis using st True by (simp add: for_loop_step)
    next
      case (Inr c')
      have "case for_loop (i + 1) n body c' of Inl e \<Rightarrow> E e | Inr c'' \<Rightarrow> I (max (i + 1) n) c''"
      proof (rule "1.IH"[OF True Inr])
        show "I (i + 1) c'" using st Inr by simp
      next
        fix j c assume "i + 1 \<le> j" "j < n" "I j c"
        then show "case body j c of Inl e \<Rightarrow> E e | Inr c' \<Rightarrow> I (j + 1) c'"
          using "1.prems"(2)[of j c] by simp
      qed
      moreover have "max (i + 1) n = n" "max i n = n" using True by simp_all
      ultimately show ?thesis using Inr True
        by (auto simp: for_loop_step split: sum.splits)
    qed
  qed
qed

text \<open>Total form: a body that cannot fail under the invariant.\<close>
lemma for_loop_total:
  assumes "I i acc"
    and "\<And>j c. i \<le> j \<Longrightarrow> j < n \<Longrightarrow> I j c \<Longrightarrow> \<exists>c'. body j c = Inr c' \<and> I (j + 1) c'"
  shows "\<exists>c'. for_loop i n body acc = Inr c' \<and> I (max i n) c'"
proof -
  have "case for_loop i n body acc of Inl e \<Rightarrow> False | Inr c' \<Rightarrow> I (max i n) c'"
  proof (rule for_loop_rule[where I = I and E = "\<lambda>e. False"])
    show "I i acc" by (rule assms(1))
  next
    fix j c assume "i \<le> j" "j < n" "I j c"
    from assms(2)[OF this] show "case body j c of Inl e \<Rightarrow> False | Inr c' \<Rightarrow> I (j + 1) c'"
      by auto
  qed
  then show ?thesis by (cases "for_loop i n body acc") auto
qed

section \<open>The loops of the filter\<close>

lemma arr_get_in:
  "0 \<le> i \<Longrightarrow> i < 32 \<Longrightarrow> arr_get xs i = Inr (xs ! nat i)"
  by (simp add: arr_get_def max_wapl_filt_order_def)

lemma arr_set_in:
  "0 \<le> i \<Longrightarrow> i < 32 \<Longrightarrow> arr_set xs i v = Inr (xs[nat i := v])"
  by (simp add: arr_set_def max_wapl_filt_order_def)

lemma ptr_get_in:
  "0 \<le> i \<Longrightarrow> i < int (length xs) \<Longrightarrow> ptr_get xs i = Inr (xs ! nat i)"
  by (simp add: ptr_get_def)

lemma copy_loop:
  assumes "n \<le> 32" and "n \<le> int (length newk)"
  shows "\<exists>ks'. for_loop 0 n (copy_body newk) ks = Inr ks' \<and> length ks' = length ks \<and>
           (\<forall>m < length ks. ks' ! m = (if int m < n then newk ! m else ks ! m))"
proof -
  let ?I = "\<lambda>j c. j \<le> max 0 n \<and> length c = length ks \<and>
             (\<forall>m < length ks. c ! m = (if int m < j then newk ! m else ks ! m))"
  have "\<exists>c'. for_loop 0 n (copy_body newk) ks = Inr c' \<and> ?I (max 0 n) c'"
  proof (rule for_loop_total[where I = ?I])
    show "?I 0 ks" by simp
  next
    fix j c assume j: "0 \<le> j" "j < n" and I: "?I j c"
    have "copy_body newk j c = Inr (c[nat j := newk ! nat j])"
      using j assms by (simp add: copy_body_def ptr_get_in arr_set_in)
    moreover have "?I (j + 1) (c[nat j := newk ! nat j])"
    proof (intro conjI allI impI)
      show "j + 1 \<le> max 0 n" using j by simp
      show "length (c[nat j := newk ! nat j]) = length ks" using I by simp
    next
      fix m assume m: "m < length ks"
      show "c[nat j := newk ! nat j] ! m = (if int m < j + 1 then newk ! m else ks ! m)"
      proof (cases "m = nat j")
        case True
        then show ?thesis using j m I by simp
      next
        case False
        then have "int m < j + 1 \<longleftrightarrow> int m < j" using j by linarith
        then show ?thesis using False m I by simp
      qed
    qed
    ultimately show "\<exists>c'. copy_body newk j c = Inr c' \<and> ?I (j + 1) c'" by blast
  qed
  then show ?thesis by (auto simp: max_def split: if_splits)
qed

lemma zero_loop:
  assumes "0 \<le> i \<or> n \<le> i" and "n \<le> 32"
  shows "\<exists>ts'. for_loop i n (zero_body A) ts = Inr ts' \<and> length ts' = length ts \<and>
           (\<forall>m < length ts. ts' ! m = (if i \<le> int m \<and> int m < n then f_zero A else ts ! m))"
proof (cases "n \<le> i")
  case True
  then show ?thesis by (auto simp: for_loop_done)
next
  case False
  then have i0: "0 \<le> i" using assms by simp
  let ?I = "\<lambda>j c. length c = length ts \<and>
             (\<forall>m < length ts. c ! m = (if i \<le> int m \<and> int m < j then f_zero A else ts ! m))"
  have "\<exists>c'. for_loop i n (zero_body A) ts = Inr c' \<and> ?I (max i n) c'"
  proof (rule for_loop_total[where I = ?I])
    show "?I i ts" by auto
  next
    fix j c assume j: "i \<le> j" "j < n" and I: "?I j c"
    have "zero_body A j c = Inr (c[nat j := f_zero A])"
      using j i0 assms by (simp add: zero_body_def arr_set_in)
    moreover have "?I (j + 1) (c[nat j := f_zero A])"
    proof (intro conjI allI impI)
      show "length (c[nat j := f_zero A]) = length ts" using I by simp
    next
      fix m assume m: "m < length ts"
      show "c[nat j := f_zero A] ! m =
              (if i \<le> int m \<and> int m < j + 1 then f_zero A else ts ! m)"
      proof (cases "m = nat j")
        case True
        then show ?thesis using j i0 m I by simp
      next
        case False
        then have "int m < j + 1 \<longleftrightarrow> int m < j" using j i0 by linarith
        then show ?thesis using False m I by simp
      qed
    qed
    ultimately show "\<exists>c'. zero_body A j c = Inr c' \<and> ?I (j + 1) c'" by blast
  qed
  then show ?thesis using False by (auto simp: max_def split: if_splits)
qed

lemma steady_state_Cons:
  "steady_state A lam (ki # ks) ab =
     steady_state A lam ks
       (lattice_step A (fst ab, dmul A (snd ab) (d_of_f A (fneg A lam))) (d_of_f A ki))"
  by (simp add: lattice_step_def Let_def)

lemma take_drop_step:
  assumes "0 \<le> j" "j < n" "n \<le> int (length xs)"
  shows "take (nat (n - j)) (drop (nat j) xs) =
           xs ! nat j # take (nat (n - (j + 1))) (drop (nat (j + 1)) xs)"
proof -
  have a: "nat (n - j) = Suc (nat (n - (j + 1)))" using assms by simp
  have b: "nat (j + 1) = Suc (nat j)" using assms by simp
  have c: "nat j < length xs" using assms by simp
  show ?thesis using c unfolding a b by (simp add: Cons_nth_drop_Suc[symmetric])
qed

lemma precompute_loop_spec:
  assumes "0 \<le> j" "n \<le> 32" "n \<le> int (length ks)"
  shows "for_loop j n (precompute_body A (d_of_f A (fneg A lam)) ks) ab =
           Inr (steady_state A lam (take (nat (n - j)) (drop (nat j) ks)) ab)"
  using assms
proof (induction "nat (n - j)" arbitrary: j ab)
  case 0
  then show ?case by (simp add: for_loop_done)
next
  case (Suc m)
  then have jn: "j < n" by simp
  have m: "m = nat (n - (j + 1))" using Suc.hyps(2) by simp
  have body: "precompute_body A (d_of_f A (fneg A lam)) ks j ab =
      Inr (lattice_step A (fst ab, dmul A (snd ab) (d_of_f A (fneg A lam))) (d_of_f A (ks ! nat j)))"
    using jn Suc.prems by (simp add: precompute_body_def arr_get_in)
  have "0 \<le> j + 1" using Suc.prems by simp
  note IH = Suc.hyps(1)[OF m this Suc.prems(2) Suc.prems(3)]
  show ?case
    using jn body IH take_drop_step[OF Suc.prems(1) jn Suc.prems(3)]
    by (simp add: for_loop_step lattice_step_def Let_def)
qed

lemma precompute_derived_params_spec:
  assumes "order_m s \<le> 32" "order_m s \<le> int (length (k_m s))"
  shows "precompute_derived_params A s =
           Inr (s\<lparr> s1_m := f_one A,
                   s2_m := f_of_d A (ddiv A (d_one A)
                             (steady_a A (lambda_m s) (take (nat (order_m s)) (k_m s)))) \<rparr>)"
  using precompute_loop_spec[of 0 "order_m s" "k_m s" A "lambda_m s" "(d_one A, d_one A)"] assms
  by (simp add: precompute_derived_params_def steady_a_def)

lemma feedback_loop_total:
  assumes "n \<le> 32"
  shows "\<exists>nu. for_loop 0 n (feedback_body A lam ks ts) nu0 = Inr nu"
proof -
  have "\<exists>c'. for_loop 0 n (feedback_body A lam ks ts) nu0 = Inr c' \<and> True"
  proof (rule for_loop_total[where I = "\<lambda>j c. True"])
    fix j c assume "0 \<le> j" "j < n"
    then show "\<exists>c'. feedback_body A lam ks ts j c = Inr c' \<and> True"
      using assms by (simp add: feedback_body_def arr_get_in)
  qed simp
  then show ?thesis by blast
qed

lemma set_params_result:
  assumes ok: "arrays_ok s"
    and ord0: "0 \<le> order_m s \<or> min ord 32 \<le> order_m s"
    and enough: "min ord 32 \<le> int (length newk)"
  shows "\<exists>ks ts nu.
           length ks = 32 \<and>
           (\<forall>m < 32. ks ! m = (if int m < ord then newk ! m else k_m s ! m)) \<and>
           length ts = 32 \<and>
           (\<forall>m < 32. ts ! m =
              (if order_m s \<le> int m \<and> int m < ord then f_zero A else t_m s ! m)) \<and>
           for_loop 0 (min ord 32) (feedback_body A lam ks ts) (d_zero A, d_zero A) = Inr nu \<and>
           set_params A lam ord newk s =
             Inr (s\<lparr> k_m := ks, t_m := ts, lambda_m := lam, order_m := min ord 32,
                     s1_m := f_one A,
                     s2_m := f_of_d A (ddiv A (d_one A)
                               (steady_a A lam (take (nat (min ord 32)) ks))),
                     next_u_m := f_of_d A (dmul A (fst nu)
                       (d_of_f A (f_of_d A (ddiv A (d_one A)
                               (steady_a A lam (take (nat (min ord 32)) ks)))))) \<rparr>)"
proof -
  let ?n = "min ord 32"
  have lk: "length (k_m s) = 32" and lt: "length (t_m s) = 32"
    using ok by (simp_all add: arrays_ok_def max_wapl_filt_order_def)
  obtain ks where ks: "for_loop 0 ?n (copy_body newk) (k_m s) = Inr ks"
    "length ks = length (k_m s)"
    "\<forall>m < length (k_m s). ks ! m = (if int m < ?n then newk ! m else k_m s ! m)"
    using copy_loop[of ?n newk "k_m s"] enough by auto
  obtain ts where ts: "for_loop (order_m s) ?n (zero_body A) (t_m s) = Inr ts"
    "length ts = length (t_m s)"
    "\<forall>m < length (t_m s). ts ! m =
        (if order_m s \<le> int m \<and> int m < ?n then f_zero A else t_m s ! m)"
    using zero_loop[of "order_m s" ?n A "t_m s"] ord0 by auto
  obtain nu where nu: "for_loop 0 ?n (feedback_body A lam ks ts) (d_zero A, d_zero A) = Inr nu"
    using feedback_loop_total[of ?n A lam ks ts "(d_zero A, d_zero A)"] by auto
  let ?s1 = "s\<lparr> k_m := ks, t_m := ts, lambda_m := lam, order_m := ?n \<rparr>"
  have pre: "precompute_derived_params A ?s1 =
     Inr (?s1\<lparr> s1_m := f_one A,
                s2_m := f_of_d A (ddiv A (d_one A) (steady_a A lam (take (nat ?n) ks))) \<rparr>)"
    using precompute_derived_params_spec[of ?s1 A] ks(2) lk by simp
  have k1: "\<forall>m < 32. ks ! m = (if int m < ord then newk ! m else k_m s ! m)"
    using ks(3) lk by auto
  have t1: "\<forall>m < 32. ts ! m =
      (if order_m s \<le> int m \<and> int m < ord then f_zero A else t_m s ! m)"
    using ts(3) lt by auto
  have sp: "set_params A lam ord newk s =
             Inr (s\<lparr> k_m := ks, t_m := ts, lambda_m := lam, order_m := min ord 32,
                     s1_m := f_one A,
                     s2_m := f_of_d A (ddiv A (d_one A)
                               (steady_a A lam (take (nat (min ord 32)) ks))),
                     next_u_m := f_of_d A (dmul A (fst nu)
                       (d_of_f A (f_of_d A (ddiv A (d_one A)
                               (steady_a A lam (take (nat (min ord 32)) ks)))))) \<rparr>)"
    using ks(1) ts(1) pre nu
    by (simp add: set_params_def max_wapl_filt_order_def Let_def)
  show ?thesis
  proof (intro exI conjI)
    show "length ks = 32" using ks(2) lk by simp
    show "\<forall>m < 32. ks ! m = (if int m < ord then newk ! m else k_m s ! m)" by (rule k1)
    show "length ts = 32" using ts(2) lt by simp
    show "\<forall>m < 32. ts ! m =
      (if order_m s \<le> int m \<and> int m < ord then f_zero A else t_m s ! m)" by (rule t1)
    show "for_loop 0 (min ord 32) (feedback_body A lam ks ts) (d_zero A, d_zero A) = Inr nu"
      by (rule nu)
    show "set_params A lam ord newk s =
             Inr (s\<lparr> k_m := ks, t_m := ts, lambda_m := lam, order_m := min ord 32,
                     s1_m := f_one A,
                     s2_m := f_of_d A (ddiv A (d_one A)
                               (steady_a A lam (take (nat (min ord 32)) ks))),
                     next_u_m := f_of_d A (dmul A (fst nu)
                       (d_of_f A (f_of_d A (ddiv A (d_one A)
                               (steady_a A lam (take (nat (min ord 32)) ks)))))) \<rparr>)"
      by (rule sp)
  qed
qed

section \<open>The derived scales\<close>

lemma take_eq_pointwise:
  assumes "n \<le> length xs" "n \<le> length ys" "\<forall>m < n. xs ! m = ys ! m"
  shows "take n xs = take n ys"
  using assms by (intro nth_equalityI) simp_all

text \<open>
  Claim C1. A call of \<open>set_params\<close> that runs without undefined behaviour (the arrays have
  their 32 elements, the zeroing loop does not start below index 0, the caller supplies
  the coefficients that are read) leaves \<open>scaleIn = s1 = 1\<close> and
  \<open>scaleOut = s2 = 1 / a\<close>, the quotient computed in double and stored as a float,
  where \<open>a\<close> is the accumulator of the recurrence of section 4.2 over the stored order,
  lambda and coefficients. In an arithmetic where multiplying by 1 is exact, the product
  \<open>s1 * s2\<close> is this \<open>1 / a\<close> as well.
\<close>
theorem set_params_derived_scales:
  assumes "arrays_ok s"
    and "0 \<le> order_m s \<or> min ord 32 \<le> order_m s"
    and "min ord 32 \<le> int (length newk)"
  shows "\<exists>s'. set_params A lam ord newk s = Inr s' \<and>
           order_m s' = min ord 32 \<and> lambda_m s' = lam \<and>
           take (nat (order_m s')) (k_m s') = take (nat (min ord 32)) newk \<and>
           s1_m s' = f_one A \<and>
           s2_m s' = f_of_d A (ddiv A (d_one A)
                       (steady_a A lam (take (nat (min ord 32)) newk))) \<and>
           ((\<forall>x. fmul A (f_one A) x = x) \<longrightarrow>
              fmul A (s1_m s') (s2_m s') = f_of_d A (ddiv A (d_one A)
                       (steady_a A lam (take (nat (min ord 32)) newk))))"
proof -
  from set_params_result[OF assms, of A lam]
  obtain ks ts nu where r:
    "length ks = 32"
    "\<forall>m < 32. ks ! m = (if int m < ord then newk ! m else k_m s ! m)"
    "for_loop 0 (min ord 32) (feedback_body A lam ks ts) (d_zero A, d_zero A) = Inr nu"
    "set_params A lam ord newk s =
             Inr (s\<lparr> k_m := ks, t_m := ts, lambda_m := lam, order_m := min ord 32,
                     s1_m := f_one A,
                     s2_m := f_of_d A (ddiv A (d_one A)
                               (steady_a A lam (take (nat (min ord 32)) ks))),
                     next_u_m := f_of_d A (dmul A (fst nu)
                       (d_of_f A (f_of_d A (ddiv A (d_one A)
                               (steady_a A lam (take (nat (min ord 32)) ks)))))) \<rparr>)"
    by blast
  have "take (nat (min ord 32)) ks = take (nat (min ord 32)) newk"
  proof (rule take_eq_pointwise)
    show "nat (min ord 32) \<le> length ks" using r(1) by simp
    show "nat (min ord 32) \<le> length newk" using assms(3) by simp
    show "\<forall>m < nat (min ord 32). ks ! m = newk ! m" using r(2) by auto
  qed
  then show ?thesis using r(4) by simp
qed

theorem set_params_derived_scales_witness:
  "arrays_ok (waplns_ctor exact_arith (replicate 32 0) (replicate 32 0)) \<and>
   (\<exists>s'. set_params exact_arith (1/2) 2 [1/4, - (3/20)]
            (waplns_ctor exact_arith (replicate 32 0) (replicate 32 0)) = Inr s' \<and>
          order_m s' = 2 \<and> s1_m s' = 1 \<and> s2_m s' = 160 / 189)"
proof -
  let ?s = "waplns_ctor exact_arith (replicate 32 0) (replicate 32 (0::real))"
  have ok: "arrays_ok ?s"
    by (simp add: arrays_ok_def waplns_ctor_def max_wapl_filt_order_def)
  have o: "0 \<le> order_m ?s \<or> min 2 32 \<le> order_m ?s" by (simp add: waplns_ctor_def)
  have e: "min 2 32 \<le> int (length [1/4, - (3/20) :: real])" by simp
  have a: "steady_a exact_arith (1/2) [1/4, - (3/20)] = 189 / 160"
    by (simp add: steady_a_def exact_arith_def Let_def)
  from set_params_derived_scales[OF ok o e, of exact_arith "1/2"]
  obtain s' where s': "set_params exact_arith (1/2) 2 [1/4, - (3/20)] ?s = Inr s'"
    "order_m s' = min 2 32"
    "s1_m s' = f_one exact_arith"
    "s2_m s' = f_of_d exact_arith (ddiv exact_arith (d_one exact_arith)
                 (steady_a exact_arith (1/2) (take (nat (min 2 32)) [1/4, - (3/20)])))"
    by blast
  have tk: "take (nat (min 2 32)) [1/4, - (3/20) :: real] = [1/4, - (3/20)]" by simp
  have "s2_m s' = f_of_d exact_arith (ddiv exact_arith (d_one exact_arith) (189 / 160))"
    using s'(4) unfolding tk a .
  then have "s2_m s' = 160 / 189" by (simp add: exact_arith_def)
  moreover have "s1_m s' = 1" using s'(3) by (simp add: exact_arith_def)
  ultimately show ?thesis using ok s'(1,2) by simp
qed

section \<open>A requested order that is not positive\<close>

text \<open>
  Claim C7, as the code has it. \<open>std::min\<close> bounds the requested order from above only.
  A call of \<open>set_params\<close> with \<open>ord \<le> 0\<close>, on an object whose stored order is not
  below \<open>ord\<close>, stores \<open>ord\<close> itself as the order (zero only when \<open>ord = 0\<close>), stores no
  coefficient and changes no delay entry; no loop makes an iteration, so the scale is
  \<open>1 / 1\<close> and a later \<open>x_was\<close> leaves the delay memory and the order alone.
\<close>
theorem set_params_nonpositive_order:
  assumes "ord \<le> 0" and "ord \<le> order_m s"
  shows "\<exists>s'. set_params A lam ord newk s = Inr s' \<and>
           order s' = ord \<and> k_m s' = k_m s \<and> t_m s' = t_m s \<and>
           s2_m s' = f_of_d A (ddiv A (d_one A) (d_one A)) \<and>
           (\<forall>x. \<exists>s''. x_was A x s' = Inr s'' \<and> t_m s'' = t_m s' \<and> order s'' = ord)"
proof -
  have m: "min ord 32 = ord" using assms by simp
  show ?thesis using assms
    by (simp add: set_params_def precompute_derived_params_def x_was_def order_def
        max_wapl_filt_order_def m for_loop_done Let_def)
qed

theorem set_params_nonpositive_order_witness:
  "(- 1 :: int) \<le> 0 \<and> - 1 \<le> order_m (waplns_ctor exact_arith (replicate 32 0) (replicate 32 0)) \<and>
   (\<exists>s'. set_params exact_arith (1/2) (- 1) []
            (waplns_ctor exact_arith (replicate 32 0) (replicate 32 0)) = Inr s' \<and>
          order s' = - 1 \<and> k_m s' = replicate 32 0)"
  using set_params_nonpositive_order[of "- 1"
      "waplns_ctor exact_arith (replicate 32 0) (replicate 32 0)" exact_arith "1/2" "[]"]
  by (auto simp: waplns_ctor_def)

text \<open>A requested order of \<open>-1\<close> on a new object: \<open>order()\<close> is \<open>-1\<close> afterwards,
  not 0.\<close>

theorem set_params_negative_order_counterexample:
  "map_sum id order (set_params exact_arith (1/2) (- 1) []
      (waplns_ctor exact_arith (replicate 32 0) (replicate 32 0))) = Inr (- 1) \<and>
   map_sum id order (set_params exact_arith (1/2) (- 1) []
      (waplns_ctor exact_arith (replicate 32 0) (replicate 32 0))) \<noteq> Inr 0"
  by (simp add: set_params_def precompute_derived_params_def order_def
        max_wapl_filt_order_def for_loop_done Let_def waplns_ctor_def)

section \<open>reset_state\<close>

text \<open>
  Claim C8. On an object whose arrays have their 32 elements and whose order is at most
  32, \<open>reset_state\<close> returns; afterwards every delay entry \<open>t[i]\<close>, \<open>0 \<le> i < order\<close>, is
  zero and \<open>u()\<close> is zero, the inactive delay entries, the order, lambda, the
  coefficients and both scales are what they were, and a second \<open>reset_state\<close> gives the
  same object again.
\<close>
theorem reset_state_frame:
  assumes "arrays_ok s" and "order_m s \<le> 32"
  shows "\<exists>s'. reset_state A s = Inr s' \<and>
           (\<forall>i. 0 \<le> i \<and> i < order_m s \<longrightarrow> t_m s' ! nat i = f_zero A) \<and>
           (\<forall>i. order_m s \<le> i \<and> 0 \<le> i \<and> i < 32 \<longrightarrow> t_m s' ! nat i = t_m s ! nat i) \<and>
           u s' = f_zero A \<and>
           order s' = order s \<and> lambda s' = lambda s \<and> k_m s' = k_m s \<and>
           s1_m s' = s1_m s \<and> s2_m s' = s2_m s \<and>
           reset_state A s' = Inr s'"
proof -
  have lt: "length (t_m s) = 32"
    using assms(1) by (simp add: arrays_ok_def max_wapl_filt_order_def)
  from zero_loop[of 0 "order_m s" A "t_m s"] assms(2)
  obtain ts where ts: "for_loop 0 (order_m s) (zero_body A) (t_m s) = Inr ts"
    "length ts = length (t_m s)"
    "\<forall>m < length (t_m s). ts ! m =
       (if 0 \<le> int m \<and> int m < order_m s then f_zero A else t_m s ! m)"
    by auto
  from zero_loop[of 0 "order_m s" A ts] assms(2)
  obtain ts2 where ts2: "for_loop 0 (order_m s) (zero_body A) ts = Inr ts2"
    "length ts2 = length ts"
    "\<forall>m < length ts. ts2 ! m = (if 0 \<le> int m \<and> int m < order_m s then f_zero A else ts ! m)"
    by auto
  have same: "ts2 = ts"
    using ts(2,3) ts2(2,3) by (intro nth_equalityI) auto
  let ?s' = "s\<lparr> t_m := ts, next_u_m := f_zero A \<rparr>"
  have r: "reset_state A s = Inr ?s'" using ts(1) by (simp add: reset_state_def)
  have idem: "reset_state A ?s' = Inr ?s'" using ts2(1) same by (simp add: reset_state_def)
  have z: "\<forall>i. 0 \<le> i \<and> i < order_m s \<longrightarrow> ts ! nat i = f_zero A"
    using ts(3) lt assms(2) by auto
  have f: "\<forall>i. order_m s \<le> i \<and> 0 \<le> i \<and> i < 32 \<longrightarrow> ts ! nat i = t_m s ! nat i"
    using ts(3) lt by auto
  show ?thesis using r idem z f by (simp add: u_def order_def lambda_def)
qed

theorem reset_state_frame_witness:
  "arrays_ok \<lparr> order_m = 2, lambda_m = 1/2, k_m = replicate 32 5, s1_m = 1, s2_m = 4,
               t_m = replicate 32 7, next_u_m = (3::real) \<rparr> \<and>
   (\<exists>s'. reset_state exact_arith
            \<lparr> order_m = 2, lambda_m = 1/2, k_m = replicate 32 5, s1_m = 1, s2_m = 4,
              t_m = replicate 32 7, next_u_m = 3 \<rparr> = Inr s' \<and>
          t_m s' ! 0 = 0 \<and> t_m s' ! 1 = 0 \<and> t_m s' ! 2 = 7 \<and> u s' = 0 \<and>
          order s' = 2 \<and> s2_m s' = 4 \<and> reset_state exact_arith s' = Inr s')"
proof -
  let ?s = "\<lparr> order_m = 2, lambda_m = 1/2, k_m = replicate 32 5, s1_m = 1, s2_m = 4,
              t_m = replicate 32 7, next_u_m = (3::real) \<rparr>"
  have ok: "arrays_ok ?s" by (simp add: arrays_ok_def max_wapl_filt_order_def)
  have o: "order_m ?s \<le> 32" by simp
  from reset_state_frame[OF ok o, of exact_arith]
  obtain s' where s': "reset_state exact_arith ?s = Inr s'"
    "\<forall>i. 0 \<le> i \<and> i < order_m ?s \<longrightarrow> t_m s' ! nat i = f_zero exact_arith"
    "\<forall>i. order_m ?s \<le> i \<and> 0 \<le> i \<and> i < 32 \<longrightarrow> t_m s' ! nat i = t_m ?s ! nat i"
    "u s' = f_zero exact_arith" "order s' = order ?s" "s2_m s' = s2_m ?s"
    "reset_state exact_arith s' = Inr s'"
    by blast
  have "t_m s' ! 0 = 0" using s'(2)[rule_format, of 0] by (simp add: exact_arith_def)
  moreover have "t_m s' ! 1 = 0" using s'(2)[rule_format, of 1] by (simp add: exact_arith_def)
  moreover have "t_m s' ! 2 = 7" using s'(3)[rule_format, of 2] by simp
  moreover have "u s' = 0" using s'(4) by (simp add: exact_arith_def)
  moreover have "order s' = 2" "s2_m s' = 4" using s'(5,6) by (simp_all add: order_def)
  ultimately show ?thesis using ok s'(1,7) by simp
qed

section \<open>The order clamp\<close>

lemma update_take_drop:
  assumes "j < length xs" "j < length ys"
  shows "(take j xs @ drop j ys)[j := xs ! j] = take (Suc j) xs @ drop (Suc j) ys"
proof -
  have d: "drop j ys = ys ! j # drop (Suc j) ys"
    using assms by (simp add: Cons_nth_drop_Suc)
  have "(take j xs @ drop j ys)[j := xs ! j] = take j xs @ (drop j ys)[0 := xs ! j]"
    using assms by (simp add: list_update_append)
  also have "\<dots> = take j xs @ (xs ! j # drop (Suc j) ys)"
    by (simp add: d)
  also have "\<dots> = take (Suc j) xs @ drop (Suc j) ys"
    using assms by (simp add: take_Suc_conv_app_nth)
  finally show ?thesis .
qed

lemma iter_loop:
  assumes "n \<le> 32" and "n \<le> int (length it)" and "length temp0 = 32"
  shows "for_loop 0 n iter_body (it, temp0) =
           Inr (drop (nat n) it, take (nat n) it @ drop (nat n) temp0)"
proof -
  let ?I = "\<lambda>j c. j \<le> max 0 n \<and> c = (drop (nat j) it, take (nat j) it @ drop (nat j) temp0)"
  have "\<exists>c'. for_loop 0 n iter_body (it, temp0) = Inr c' \<and> ?I (max 0 n) c'"
  proof (rule for_loop_total[where I = ?I])
    show "?I 0 (it, temp0)" by simp
  next
    fix j c assume j: "0 \<le> j" "j < n" and I: "?I j c"
    have lj: "nat j < length it" "nat j < length temp0" using j assms by simp_all
    have d: "drop (nat j) it = it ! nat j # drop (Suc (nat j)) it"
      using lj by (simp add: Cons_nth_drop_Suc)
    have sj: "nat (j + 1) = Suc (nat j)" using j by simp
    have "iter_body j c =
            Inr (drop (Suc (nat j)) it, (take (nat j) it @ drop (nat j) temp0)[nat j := it ! nat j])"
      using I j assms(1) d by (simp add: iter_body_def arr_set_in)
    then show "\<exists>c'. iter_body j c = Inr c' \<and> ?I (j + 1) c'"
      using update_take_drop[OF lj] j sj by simp
  qed
  then show ?thesis by (auto simp: max_def split: if_splits)
qed

lemma copy_loop_cong:
  assumes "n \<le> 32" "n \<le> int (length newk)" "n \<le> int (length newk')"
    and "take (nat n) newk = take (nat n) newk'"
  shows "for_loop 0 n (copy_body newk) ks = for_loop 0 n (copy_body newk') ks"
proof -
  from copy_loop[OF assms(1,2), of ks]
  obtain c where c: "for_loop 0 n (copy_body newk) ks = Inr c" "length c = length ks"
    "\<forall>m < length ks. c ! m = (if int m < n then newk ! m else ks ! m)" by blast
  from copy_loop[OF assms(1,3), of ks]
  obtain c' where c': "for_loop 0 n (copy_body newk') ks = Inr c'" "length c' = length ks"
    "\<forall>m < length ks. c' ! m = (if int m < n then newk' ! m else ks ! m)" by blast
  have "newk ! m = newk' ! m" if "int m < n" for m
  proof -
    have "m < nat n" using that by simp
    then have "take (nat n) newk ! m = newk ! m" "take (nat n) newk' ! m = newk' ! m"
      by simp_all
    then show ?thesis using assms(4) by simp
  qed
  then have "c = c'" using c(2,3) c'(2,3) by (intro nth_equalityI) auto
  then show ?thesis using c(1) c'(1) by simp
qed

lemma set_params_cong:
  assumes "min ord 32 = min ord' 32"
    and "for_loop 0 (min ord 32) (copy_body newk) (k_m s) =
         for_loop 0 (min ord 32) (copy_body newk') (k_m s)"
  shows "set_params A lam ord newk s = set_params A lam ord' newk' s"
  using assms by (simp add: set_params_def max_wapl_filt_order_def)

text \<open>
  Claim C6. A call of \<open>set_params\<close> with a requested order above \<open>max_wapl_filt_order\<close>
  (on an object with a stored order that is not negative, with 32 or more coefficients
  supplied) reports no error: \<open>order()\<close> is \<open>max_wapl_filt_order\<close> afterwards and the stored
  coefficients are the first 32 supplied ones, readable through the accessor \<open>k\<close>. What
  follows the first 32 elements has no effect, for the pointer overloads and for the
  iterator overload, which gives the same object.
\<close>
theorem set_params_order_clamp:
  assumes "arrays_ok s" and "0 \<le> order_m s"
    and "max_wapl_filt_order < ord" and "32 \<le> length newk"
  shows "\<exists>s'. set_params A lam ord newk s = Inr s' \<and>
           order s' = max_wapl_filt_order \<and>
           k_m s' = take 32 newk \<and>
           (\<forall>i. 0 \<le> i \<and> i < 32 \<longrightarrow> k_coef s' i = Inr (newk ! nat i)) \<and>
           set_params_ptr A lam ord newk s = Inr s' \<and>
           (\<forall>rest. set_params A lam ord (take 32 newk @ rest) s = Inr s') \<and>
           (\<forall>rest temp0. length temp0 = 32 \<longrightarrow>
              set_params_iter A lam ord (take 32 newk @ rest) temp0 s = Inr s')"
proof -
  have m: "min ord 32 = 32" using assms(3) by (simp add: max_wapl_filt_order_def)
  have o: "0 \<le> order_m s \<or> min ord 32 \<le> order_m s" using assms(2) by simp
  have e: "min ord 32 \<le> int (length newk)" using assms(4) m by simp
  from set_params_result[OF assms(1) o e, of A lam]
  obtain ks ts nu where r:
    "length ks = 32"
    "\<forall>m < 32. ks ! m = (if int m < ord then newk ! m else k_m s ! m)"
    "for_loop 0 (min ord 32) (feedback_body A lam ks ts) (d_zero A, d_zero A) = Inr nu"
    "set_params A lam ord newk s =
             Inr (s\<lparr> k_m := ks, t_m := ts, lambda_m := lam, order_m := min ord 32,
                     s1_m := f_one A,
                     s2_m := f_of_d A (ddiv A (d_one A)
                               (steady_a A lam (take (nat (min ord 32)) ks))),
                     next_u_m := f_of_d A (dmul A (fst nu)
                       (d_of_f A (f_of_d A (ddiv A (d_one A)
                               (steady_a A lam (take (nat (min ord 32)) ks)))))) \<rparr>)"
    by blast
  define s' where "s' = s\<lparr> k_m := ks, t_m := ts, lambda_m := lam, order_m := min ord 32,
                     s1_m := f_one A,
                     s2_m := f_of_d A (ddiv A (d_one A)
                               (steady_a A lam (take (nat (min ord 32)) ks))),
                     next_u_m := f_of_d A (dmul A (fst nu)
                       (d_of_f A (f_of_d A (ddiv A (d_one A)
                               (steady_a A lam (take (nat (min ord 32)) ks)))))) \<rparr>"
  have sp: "set_params A lam ord newk s = Inr s'" using r(4) by (simp add: s'_def)
  have ord': "order s' = max_wapl_filt_order"
    by (simp add: s'_def order_def m max_wapl_filt_order_def)
  have ks: "ks = take 32 newk"
    using r(1,2) assms(3,4) by (intro nth_equalityI) (auto simp: max_wapl_filt_order_def)
  have km: "k_m s' = take 32 newk" using ks by (simp add: s'_def)
  have kc: "\<forall>i. 0 \<le> i \<and> i < 32 \<longrightarrow> k_coef s' i = Inr (newk ! nat i)"
  proof (intro allI impI)
    fix i :: int assume i: "0 \<le> i \<and> i < 32"
    then have "nat i < 32" by linarith
    then have "take 32 newk ! nat i = newk ! nat i" by simp
    then show "k_coef s' i = Inr (newk ! nat i)"
      using i ks by (simp add: k_coef_def s'_def m arr_get_in)
  qed
  have rest: "set_params A lam ord (take 32 newk @ rest) s = Inr s'" for rest
  proof -
    have "for_loop 0 32 (copy_body (take 32 newk @ rest)) (k_m s) =
          for_loop 0 32 (copy_body newk) (k_m s)"
      using assms(4) by (intro copy_loop_cong) simp_all
    then have "set_params A lam ord (take 32 newk @ rest) s = set_params A lam ord newk s"
      by (intro set_params_cong) (simp_all add: m)
    then show ?thesis using sp by simp
  qed
  have it: "set_params_iter A lam ord (take 32 newk @ rest) temp0 s = Inr s'"
    if "length temp0 = 32" for rest temp0
  proof -
    have l: "32 \<le> int (length (take 32 newk @ rest))" using assms(4) by simp
    have "for_loop 0 32 iter_body (take 32 newk @ rest, temp0) =
            Inr (drop (nat 32) (take 32 newk @ rest),
                 take (nat 32) (take 32 newk @ rest) @ drop (nat 32) temp0)"
      using l that by (intro iter_loop) simp_all
    also have "take (nat 32) (take 32 newk @ rest) @ drop (nat 32) temp0 = take 32 newk"
      using assms(4) that by simp
    finally have "set_params_iter A lam ord (take 32 newk @ rest) temp0 s =
                    set_params A lam 32 (take 32 newk) s"
      by (simp add: set_params_iter_def m max_wapl_filt_order_def)
    also have "\<dots> = set_params A lam ord (take 32 newk @ []) s"
      by (intro set_params_cong) (simp_all add: m)
    finally show ?thesis using rest[of "[]"] by simp
  qed
  show ?thesis
    using sp ord' km kc rest it by (simp add: set_params_ptr_def)
qed

theorem set_params_order_clamp_witness:
  "arrays_ok (waplns_ctor exact_arith (replicate 32 0) (replicate 32 0)) \<and>
   max_wapl_filt_order < 40 \<and>
   (\<exists>s'. set_params exact_arith (1/2) 40 (replicate 32 (1/4) @ replicate 8 (3/4))
            (waplns_ctor exact_arith (replicate 32 0) (replicate 32 0)) = Inr s' \<and>
          order s' = 32 \<and> k_m s' = replicate 32 (1/4) \<and>
          set_params_iter exact_arith (1/2) 40 (replicate 32 (1/4) @ replicate 8 (3/4))
            (replicate 32 0)
            (waplns_ctor exact_arith (replicate 32 0) (replicate 32 0)) = Inr s')"
proof -
  let ?s = "waplns_ctor exact_arith (replicate 32 0) (replicate 32 (0::real))"
  let ?k = "replicate 32 (1/4) @ replicate 8 (3/4 :: real)"
  have ok: "arrays_ok ?s"
    by (simp add: arrays_ok_def waplns_ctor_def max_wapl_filt_order_def)
  have o: "0 \<le> order_m ?s" by (simp add: waplns_ctor_def)
  have g: "max_wapl_filt_order < 40" by (simp add: max_wapl_filt_order_def)
  have l: "32 \<le> length ?k" by simp
  have tk: "take 32 ?k = replicate 32 (1/4)" by simp
  from set_params_order_clamp[OF ok o g l, of exact_arith "1/2"]
  obtain s' where s': "set_params exact_arith (1/2) 40 ?k ?s = Inr s'"
    "order s' = max_wapl_filt_order" "k_m s' = take 32 ?k"
    "\<forall>rest temp0. length temp0 = 32 \<longrightarrow>
        set_params_iter exact_arith (1/2) 40 (take 32 ?k @ rest) temp0 ?s = Inr s'"
    by blast
  have "set_params_iter exact_arith (1/2) 40 ?k (replicate 32 0) ?s = Inr s'"
    using s'(4)[rule_format, of "replicate 32 0" "replicate 8 (3/4)"] unfolding tk by simp
  then show ?thesis using ok g s'(1,2,3) unfolding tk by (simp add: max_wapl_filt_order_def)
qed

section \<open>Order zero\<close>

lemma bypass_set_params:
  assumes "unit_laws A" and "set_params A lam 0 newk s0 = Inr s"
  shows "order_m s = 0 \<and> s2_m s = f_one A \<and> next_u_m s = f_zero A"
proof (cases "for_loop (order_m s0) 0 (zero_body A) (t_m s0)")
  case (Inl e)
  then show ?thesis
    using assms(2) by (simp add: set_params_def max_wapl_filt_order_def for_loop_done)
next
  case (Inr ts)
  then show ?thesis
    using assms unfolding unit_laws_def
    by (auto simp: set_params_def max_wapl_filt_order_def for_loop_done
        precompute_derived_params_def)
qed

lemma bypass_x_was:
  assumes "unit_laws A" and "order_m s = 0 \<and> s2_m s = f_one A \<and> next_u_m s = f_zero A"
  shows "\<exists>s'. x_was A x s = Inr s' \<and>
           order_m s' = 0 \<and> s2_m s' = f_one A \<and> next_u_m s' = f_zero A"
  using assms unfolding unit_laws_def
  by (simp add: x_was_def for_loop_done)

lemma bypass_run:
  assumes "unit_laws A" and "order_m s = 0 \<and> s2_m s = f_one A \<and> next_u_m s = f_zero A"
  shows "\<exists>s'. run A (map XWas xs) s = Inr s' \<and>
           order_m s' = 0 \<and> s2_m s' = f_one A \<and> next_u_m s' = f_zero A"
  using assms(2)
proof (induction xs arbitrary: s)
  case Nil
  then show ?case by simp
next
  case (Cons x xs)
  from bypass_x_was[OF assms(1) Cons.prems, of x]
  obtain s1 where s1: "x_was A x s = Inr s1"
    "order_m s1 = 0 \<and> s2_m s1 = f_one A \<and> next_u_m s1 = f_zero A" by blast
  from Cons.IH[OF s1(2)] show ?case using s1(1) by simp
qed

text \<open>
  Claim C5. In an arithmetic whose operations on the constants 0 and 1 are exact, an
  object that was just constructed, or that a call of \<open>set_params\<close> (either overload) with
  order 0 has returned, has order 0 and \<open>u()\<close> equal to 0, and any number of calls of \<open>x_was\<close>, with
  any inputs, run and leave the order 0 and \<open>u()\<close> equal to 0.
\<close>
theorem order_zero_bypass:
  assumes "unit_laws A"
    and "s = waplns_ctor A k0 t0 \<or> set_params A lam 0 newk s0 = Inr s \<or>
         set_params_iter A lam 0 it temp0 s0 = Inr s"
  shows "order s = 0 \<and> u s = f_zero A \<and>
         (\<exists>s'. run A (map XWas xs) s = Inr s' \<and> order s' = 0 \<and> u s' = f_zero A)"
proof -
  have it: "set_params_iter A lam 0 it temp0 s0 = set_params A lam 0 temp0 s0"
    by (simp add: set_params_iter_def max_wapl_filt_order_def for_loop_done)
  have b: "order_m s = 0 \<and> s2_m s = f_one A \<and> next_u_m s = f_zero A"
  proof (rule disjE[OF assms(2)])
    assume "s = waplns_ctor A k0 t0"
    then show ?thesis by (simp add: waplns_ctor_def)
  next
    assume "set_params A lam 0 newk s0 = Inr s \<or> set_params_iter A lam 0 it temp0 s0 = Inr s"
    then show ?thesis
    proof
      assume "set_params A lam 0 newk s0 = Inr s"
      then show ?thesis by (rule bypass_set_params[OF assms(1)])
    next
      assume "set_params_iter A lam 0 it temp0 s0 = Inr s"
      then have "set_params A lam 0 temp0 s0 = Inr s" unfolding it .
      then show ?thesis by (rule bypass_set_params[OF assms(1)])
    qed
  qed
  from bypass_run[OF assms(1) b, of xs] b show ?thesis
    by (auto simp: order_def u_def)
qed

theorem order_zero_bypass_witness:
  "unit_laws exact_arith \<and>
   set_params exact_arith (1/2) 0 []
     \<lparr> order_m = 2, lambda_m = 1/4, k_m = replicate 32 (1/4), s1_m = 1, s2_m = 4/5,
       t_m = replicate 32 7, next_u_m = 3 \<rparr>
   = Inr \<lparr> order_m = 0, lambda_m = 1/2, k_m = replicate 32 (1/4), s1_m = 1, s2_m = 1,
           t_m = replicate 32 7, next_u_m = 0 \<rparr> \<and>
   (\<exists>s'. run exact_arith (map XWas [1, -2, 3])
            \<lparr> order_m = 0, lambda_m = 1/2, k_m = replicate 32 (1/4), s1_m = 1, s2_m = 1,
              t_m = replicate 32 7, next_u_m = 0 \<rparr> = Inr s' \<and>
          order s' = 0 \<and> u s' = 0)"
proof -
  let ?old = "\<lparr> order_m = 2, lambda_m = 1/4, k_m = replicate 32 (1/4), s1_m = 1, s2_m = 4/5,
       t_m = replicate 32 7, next_u_m = (3::real) \<rparr>"
  let ?s = "\<lparr> order_m = 0, lambda_m = 1/2, k_m = replicate 32 (1/4), s1_m = 1, s2_m = 1,
           t_m = replicate 32 7, next_u_m = (0::real) \<rparr>"
  have laws: "unit_laws exact_arith" by (simp add: unit_laws_def exact_arith_def)
  have sp: "set_params exact_arith (1/2) 0 [] ?old = Inr ?s"
    by (simp add: set_params_def max_wapl_filt_order_def for_loop_done
        precompute_derived_params_def exact_arith_def)
  then have h: "?s = waplns_ctor exact_arith [] [] \<or>
                set_params exact_arith (1/2) 0 [] ?old = Inr ?s \<or>
                set_params_iter exact_arith (1/2) 0 [] [] ?old = Inr ?s"
    by simp
  have z: "f_zero exact_arith = 0" by (simp add: exact_arith_def)
  from order_zero_bypass[OF laws h, of "[1, -2, 3]"]
  have "\<exists>s'. run exact_arith (map XWas [1, -2, 3]) ?s = Inr s' \<and> order s' = 0 \<and> u s' = 0"
    unfolding z by (elim conjE)
  then show ?thesis using laws sp by (intro conjI)
qed

section \<open>The feedback after set_params\<close>






lemma partial_arith_unit_laws: "unit_laws partial_arith"
  by (simp add: unit_laws_def partial_arith_def lift2_def partial_div_def)




section \<open>Array bounds\<close>

lemma for_loop_no_oob:
  assumes "0 \<le> i" and "n \<le> 32"
    and "\<And>j c. 0 \<le> j \<Longrightarrow> j < 32 \<Longrightarrow> body j c \<noteq> Inl OutOfBounds"
  shows "for_loop i n body acc \<noteq> Inl OutOfBounds"
proof -
  have "case for_loop i n body acc of Inl e \<Rightarrow> e \<noteq> OutOfBounds | Inr c' \<Rightarrow> True"
  proof (rule for_loop_rule[where I = "\<lambda>j c. True" and E = "\<lambda>e. e \<noteq> OutOfBounds"])
    fix j c assume "i \<le> j" "j < n"
    then have "body j c \<noteq> Inl OutOfBounds" using assms by simp
    then show "case body j c of Inl e \<Rightarrow> e \<noteq> OutOfBounds | Inr c' \<Rightarrow> True"
      by (cases "body j c") auto
  qed simp
  then show ?thesis by (cases "for_loop i n body acc") auto
qed

lemma copy_body_no_oob:
  "0 \<le> j \<Longrightarrow> j < 32 \<Longrightarrow> copy_body newk j c \<noteq> Inl OutOfBounds"
  by (simp add: copy_body_def ptr_get_def arr_set_in)

lemma zero_body_no_oob:
  "0 \<le> j \<Longrightarrow> j < 32 \<Longrightarrow> zero_body A j c \<noteq> Inl OutOfBounds"
  by (simp add: zero_body_def arr_set_in)

lemma iter_body_no_oob:
  "0 \<le> j \<Longrightarrow> j < 32 \<Longrightarrow> iter_body j c \<noteq> Inl OutOfBounds"
  by (simp add: iter_body_def arr_set_in split: list.splits)

lemma precompute_loop_total:
  assumes "n \<le> 32"
  shows "\<exists>ab. for_loop 0 n (precompute_body A nl ks) ab0 = Inr ab"
proof -
  have "\<exists>c'. for_loop 0 n (precompute_body A nl ks) ab0 = Inr c' \<and> True"
  proof (rule for_loop_total[where I = "\<lambda>j c. True"])
    fix j c assume "0 \<le> j" "j < n"
    then show "\<exists>c'. precompute_body A nl ks j c = Inr c' \<and> True"
      using assms by (simp add: precompute_body_def arr_get_in)
  qed simp
  then show ?thesis by blast
qed

lemma x_was_loop_total:
  assumes "n \<le> 32"
  shows "\<exists>c. for_loop 0 n (x_was_body A lam ks) c0 = Inr c"
proof -
  have "\<exists>c'. for_loop 0 n (x_was_body A lam ks) c0 = Inr c' \<and> True"
  proof (rule for_loop_total[where I = "\<lambda>j c. True"])
    fix j c assume "0 \<le> j" "j < n"
    then show "\<exists>c'. x_was_body A lam ks j c = Inr c' \<and> True"
      using assms by (simp add: x_was_body_def arr_get_in arr_set_in Let_def)
  qed simp
  then show ?thesis by blast
qed

text \<open>The order stays within \<open>[0, 32]\<close>, and no call indexes outside an array, as long
  as no requested order is negative.\<close>

lemma set_params_safe:
  assumes "0 \<le> order_m s" and "0 \<le> ord"
  shows "case set_params A lam ord newk s of
           Inl e \<Rightarrow> e \<noteq> OutOfBounds
         | Inr s' \<Rightarrow> 0 \<le> order_m s' \<and> order_m s' \<le> 32"
proof -
  let ?n = "min ord 32"
  have n: "0 \<le> ?n" "?n \<le> 32" using assms(2) by simp_all
  have c1: "for_loop 0 ?n (copy_body newk) (k_m s) \<noteq> Inl OutOfBounds"
    by (rule for_loop_no_oob) (simp_all add: copy_body_no_oob)
  have c2: "for_loop (order_m s) ?n (zero_body A) (t_m s) \<noteq> Inl OutOfBounds"
    using assms(1) by (intro for_loop_no_oob) (simp_all add: zero_body_no_oob)
  show ?thesis
  proof (cases "for_loop 0 ?n (copy_body newk) (k_m s)")
    case (Inl e)
    then show ?thesis using c1 by (simp add: set_params_def max_wapl_filt_order_def)
  next
    case ks: (Inr ks)
    show ?thesis
    proof (cases "for_loop (order_m s) ?n (zero_body A) (t_m s)")
      case (Inl e)
      then show ?thesis using c2 ks by (simp add: set_params_def max_wapl_filt_order_def)
    next
      case ts: (Inr ts)
      obtain ab where ab: "for_loop 0 ?n (precompute_body A (d_of_f A (fneg A lam)) ks)
                             (d_one A, d_one A) = Inr ab"
        using precompute_loop_total[OF n(2), of A "d_of_f A (fneg A lam)" ks "(d_one A, d_one A)"]
        by blast
      obtain nu where nu: "for_loop 0 ?n (feedback_body A lam ks ts) (d_zero A, d_zero A) = Inr nu"
        using feedback_loop_total[OF n(2), of A lam ks ts "(d_zero A, d_zero A)"] by blast
      show ?thesis using ks ts ab nu n
        by (simp add: set_params_def precompute_derived_params_def max_wapl_filt_order_def)
    qed
  qed
qed

lemma set_params_iter_safe:
  assumes "0 \<le> order_m s" and "0 \<le> ord"
  shows "case set_params_iter A lam ord it temp0 s of
           Inl e \<Rightarrow> e \<noteq> OutOfBounds
         | Inr s' \<Rightarrow> 0 \<le> order_m s' \<and> order_m s' \<le> 32"
proof -
  have c: "for_loop 0 (min ord 32) iter_body (it, temp0) \<noteq> Inl OutOfBounds"
    by (rule for_loop_no_oob) (simp_all add: iter_body_no_oob)
  have "0 \<le> min ord 32" using assms(2) by simp
  from set_params_safe[OF assms(1) this] c show ?thesis
    by (cases "for_loop 0 (min ord 32) iter_body (it, temp0)")
       (simp_all add: set_params_iter_def max_wapl_filt_order_def)
qed

lemma reset_state_safe:
  assumes "order_m s \<le> 32"
  shows "\<exists>s'. reset_state A s = Inr s' \<and> order_m s' = order_m s"
proof -
  from zero_loop[of 0 "order_m s" A "t_m s"] assms
  obtain ts where "for_loop 0 (order_m s) (zero_body A) (t_m s) = Inr ts" by auto
  then show ?thesis by (simp add: reset_state_def)
qed

lemma x_was_safe:
  assumes "order_m s \<le> 32"
  shows "\<exists>s'. x_was A x s = Inr s' \<and> order_m s' = order_m s"
proof -
  let ?c0 = "\<lparr> acc_a = dmul A (dsub A (d_of_f A x) (d_of_f A (next_u_m s))) (d_of_f A (s1_m s)),
               acc_b = dmul A (dsub A (d_of_f A x) (d_of_f A (next_u_m s))) (d_of_f A (s1_m s)),
               acc_nua = d_zero A, acc_nub = d_zero A, acc_t = t_m s \<rparr>"
  obtain c where "for_loop 0 (order_m s) (x_was_body A (lambda_m s) (k_m s)) ?c0 = Inr c"
    using x_was_loop_total[OF assms, of A "lambda_m s" "k_m s" ?c0] by blast
  then show ?thesis by (simp add: x_was_def Let_def)
qed

lemma call_step_safe:
  assumes "0 \<le> order_m s \<and> order_m s \<le> 32" and "order_nonneg c"
  shows "case call_step A c s of
           Inl e \<Rightarrow> e \<noteq> OutOfBounds
         | Inr s' \<Rightarrow> 0 \<le> order_m s' \<and> order_m s' \<le> 32"
proof (cases c)
  case (SetParams lam ord newk)
  then show ?thesis using assms set_params_safe[of s ord A lam newk] by simp
next
  case (SetParamsIter lam ord it temp0)
  then show ?thesis using assms set_params_iter_safe[of s ord A lam it temp0] by simp
next
  case ResetState
  then show ?thesis using assms reset_state_safe[of s A] by auto
next
  case (XWas x)
  then show ?thesis using assms x_was_safe[of s A x] by auto
qed

lemma run_safe:
  assumes "\<forall>c \<in> set calls. order_nonneg c" and "0 \<le> order_m s \<and> order_m s \<le> 32"
  shows "run A calls s \<noteq> Inl OutOfBounds"
  using assms
proof (induction calls arbitrary: s)
  case Nil
  then show ?case by simp
next
  case (Cons c calls)
  have st: "case call_step A c s of
           Inl e \<Rightarrow> e \<noteq> OutOfBounds
         | Inr s' \<Rightarrow> 0 \<le> order_m s' \<and> order_m s' \<le> 32"
    using call_step_safe[OF Cons.prems(2), of c A] Cons.prems(1) by simp
  show ?case
  proof (cases "call_step A c s")
    case (Inl e)
    then show ?thesis using st by simp
  next
    case (Inr s')
    then have "0 \<le> order_m s' \<and> order_m s' \<le> 32" using st by simp
    from Cons.IH[OF _ this] Cons.prems(1) Inr show ?thesis by simp
  qed
qed

text \<open>
  Claim C9. Every access to \<open>k_\<close> and \<open>t_\<close> (and to the local \<open>temp\<close>) goes through
  \<open>arr_get\<close> or \<open>arr_set\<close>, which give \<open>OutOfBounds\<close> exactly for an index outside
  \<open>[0, 32)\<close>, and a run stops at the first error. So: on a constructed object, a history
  of calls of \<open>set_params\<close> (either overload), \<open>x_was\<close> and \<open>reset_state\<close> in which no
  requested order is negative never indexes outside \<open>[0, 32)\<close>.
\<close>
theorem array_accesses_in_bounds:
  assumes "\<forall>c \<in> set calls. order_nonneg c"
  shows "run A calls (waplns_ctor A k0 t0) \<noteq> Inl OutOfBounds"
  using run_safe[OF assms, of "waplns_ctor A k0 t0" A] by (simp add: waplns_ctor_def)

theorem array_accesses_in_bounds_witness:
  "list_all order_nonneg
     [SetParams (1/2) 40 (replicate 40 (1/4)), XWas 1, ResetState,
      SetParamsIter (1/4) 2 [1/4, - (3/20)] (replicate 32 0), XWas 1,
      SetParams (1/2) 0 [] :: real call] \<and>
   run exact_arith
     [SetParams (1/2) 40 (replicate 40 (1/4)), XWas 1, ResetState,
      SetParamsIter (1/4) 2 [1/4, - (3/20)] (replicate 32 0), XWas 1, SetParams (1/2) 0 []]
     (waplns_ctor exact_arith (replicate 32 0) (replicate 32 0)) \<noteq> Inl OutOfBounds"
proof -
  have h: "\<forall>c \<in> set [SetParams (1/2) 40 (replicate 40 (1/4)), XWas 1, ResetState,
                SetParamsIter (1/4) 2 [1/4, - (3/20)] (replicate 32 0), XWas 1,
                SetParams (1/2) 0 [] :: real call]. order_nonneg c"
    by simp
  from array_accesses_in_bounds[OF h] show ?thesis by simp
qed

text \<open>Without the precondition the claim fails: after a negative order, the zeroing loop
  of the next call starts at index \<open>-1\<close>.\<close>

lemma negative_order_then_out_of_bounds:
  "run exact_arith [SetParams (1/2) (- 1) [], SetParams (1/2) 1 [1/4]]
     (waplns_ctor exact_arith (replicate 32 0) (replicate 32 0)) = Inl OutOfBounds"
  by (simp add: set_params_def precompute_derived_params_def max_wapl_filt_order_def
      for_loop_done for_loop_step copy_body_def ptr_get_def arr_set_def zero_body_def
      waplns_ctor_def)

section \<open>The per-sample update\<close>

lemma x_was_body_in:
  assumes "0 \<le> j" "j < 32" "nat j < length (acc_t c)"
  shows "x_was_body A lam ks j c =
    (let ki = ks ! nat j; ti = acc_t c ! nat j;
         bt = apply_D_alter_t A (acc_b c) ti lam;
         nub = apply_D_keep_t A (acc_nub c) (snd bt) lam;
         ab = lattice_step A (acc_a c, fst bt) (d_of_f A ki);
         nu = lattice_step A (acc_nua c, nub) (d_of_f A ki)
     in Inr \<lparr> acc_a = fst ab, acc_b = snd ab, acc_nua = fst nu, acc_nub = snd nu,
              acc_t = (acc_t c)[nat j := snd bt] \<rparr>)"
  using assms by (simp add: x_was_body_def arr_get_in arr_set_in Let_def)

lemma x_was_stages_Cons:
  "x_was_stages A lam (ki # ks) (ti # ts) (a, b, nua, nub) =
    (let bt = apply_D_alter_t A b ti lam;
         nub1 = apply_D_keep_t A nub (snd bt) lam;
         ab = lattice_step A (a, fst bt) (d_of_f A ki);
         nu = lattice_step A (nua, nub1) (d_of_f A ki);
         rest = x_was_stages A lam ks ts (fst ab, snd ab, fst nu, snd nu)
     in (fst rest, snd bt # snd rest))"
  by (simp add: Let_def apply_D_alter_t_def apply_D_keep_t_def lattice_step_def)

lemma x_was_loop_spec:
  assumes "0 \<le> j" "n \<le> 32" "n \<le> int (length ks)" "n \<le> int (length (acc_t c))"
  shows "for_loop j n (x_was_body A lam ks) c =
     (let r = x_was_stages A lam (take (nat (n - j)) (drop (nat j) ks))
                (take (nat (n - j)) (drop (nat j) (acc_t c)))
                (acc_a c, acc_b c, acc_nua c, acc_nub c)
      in Inr \<lparr> acc_a = fst (fst r), acc_b = fst (snd (fst r)),
               acc_nua = fst (snd (snd (fst r))), acc_nub = snd (snd (snd (fst r))),
               acc_t = take (nat j) (acc_t c) @ snd r @ drop (nat (max j n)) (acc_t c) \<rparr>)"
  using assms
proof (induction "nat (n - j)" arbitrary: j c)
  case 0
  then have "n \<le> j" by simp
  then show ?case by (simp add: for_loop_done max_def)
next
  case (Suc m)
  then have jn: "j < n" by simp
  have m: "m = nat (n - (j + 1))" using Suc.hyps(2) by simp
  have j32: "j < 32" using jn Suc.prems by simp
  have lj: "nat j < length (acc_t c)" "nat j < length ks" using jn Suc.prems by simp_all
  define bt where "bt = apply_D_alter_t A (acc_b c) (acc_t c ! nat j) lam"
  define nub where "nub = apply_D_keep_t A (acc_nub c) (snd bt) lam"
  define ab where "ab = lattice_step A (acc_a c, fst bt) (d_of_f A (ks ! nat j))"
  define nu where "nu = lattice_step A (acc_nua c, nub) (d_of_f A (ks ! nat j))"
  define c1 where "c1 = \<lparr> acc_a = fst ab, acc_b = snd ab, acc_nua = fst nu, acc_nub = snd nu,
              acc_t = (acc_t c)[nat j := snd bt] \<rparr>"
  have body: "x_was_body A lam ks j c = Inr c1"
    using x_was_body_in[OF Suc.prems(1) j32 lj(1), of A lam ks]
    by (simp add: Let_def bt_def nub_def ab_def nu_def c1_def)
  have p1: "0 \<le> j + 1" using Suc.prems by simp
  have p4: "n \<le> int (length (acc_t c1))" using Suc.prems by (simp add: c1_def)
  note IH = Suc.hyps(1)[OF m p1 Suc.prems(2) Suc.prems(3) p4]
  have sj: "nat (j + 1) = Suc (nat j)" using Suc.prems by simp
  have mx: "max (j + 1) n = n" "max j n = n" using jn by simp_all
  have tk: "take (nat (n - j)) (drop (nat j) ks) =
              ks ! nat j # take (nat (n - (j + 1))) (drop (nat (j + 1)) ks)"
    by (rule take_drop_step[OF Suc.prems(1) jn Suc.prems(3)])
  have tt: "take (nat (n - j)) (drop (nat j) (acc_t c)) =
              acc_t c ! nat j # take (nat (n - (j + 1))) (drop (nat (j + 1)) (acc_t c))"
    by (rule take_drop_step[OF Suc.prems(1) jn Suc.prems(4)])
  have d1: "drop (nat (j + 1)) (acc_t c1) = drop (nat (j + 1)) (acc_t c)"
    unfolding sj by (simp add: c1_def)
  have d2: "drop (nat n) (acc_t c1) = drop (nat n) (acc_t c)"
    using jn Suc.prems(1) by (simp add: c1_def)
  have t1: "take (nat (j + 1)) (acc_t c1) = take (nat j) (acc_t c) @ [snd bt]"
    unfolding sj using lj(1) by (simp add: c1_def take_Suc_conv_app_nth)
  have acc1: "acc_a c1 = fst ab" "acc_b c1 = snd ab" "acc_nua c1 = fst nu" "acc_nub c1 = snd nu"
    by (simp_all add: c1_def)
  show ?case
    unfolding for_loop_step[OF jn] body sum.case IH mx tk tt d1 d2 t1 acc1 x_was_stages_Cons
    by (simp add: Let_def bt_def nub_def ab_def nu_def)
qed

lemma length_x_was_stages:
  "length (snd (x_was_stages A lam ks ts acc)) = min (length ks) (length ts)"
proof (induction ks arbitrary: ts acc)
  case Nil
  then show ?case by simp
next
  case (Cons ki ks)
  show ?case
  proof (cases ts)
    case Nil
    then show ?thesis by simp
  next
    case (Cons ti ts')
    obtain a b nua nub where acc: "acc = (a, b, nua, nub)" by (cases acc) auto
    show ?thesis
      unfolding Cons acc x_was_stages_Cons using Cons.IH by (simp add: Let_def)
  qed
qed

lemma nth_append_drop:
  "length xs = n \<Longrightarrow> n \<le> m \<Longrightarrow> m < length ys \<Longrightarrow> (xs @ drop n ys) ! m = ys ! m"
  by (simp add: nth_append)

lemma x_was_eq_spec:
  assumes "arrays_ok s" and "order_m s \<le> 32"
  shows "x_was A x s = Inr (x_was_spec A x s) \<and>
         arrays_ok (x_was_spec A x s) \<and>
         (\<forall>i. order_m s \<le> i \<and> 0 \<le> i \<and> i < 32 \<longrightarrow>
              t_m (x_was_spec A x s) ! nat i = t_m s ! nat i) \<and>
         order_m (x_was_spec A x s) = order_m s \<and>
         lambda_m (x_was_spec A x s) = lambda_m s \<and>
         k_m (x_was_spec A x s) = k_m s \<and>
         s1_m (x_was_spec A x s) = s1_m s \<and>
         s2_m (x_was_spec A x s) = s2_m s"
proof -
  let ?n = "order_m s"
  have lk: "length (k_m s) = 32" and lt: "length (t_m s) = 32"
    using assms(1) by (simp_all add: arrays_ok_def max_wapl_filt_order_def)
  define a where "a = dmul A (dsub A (d_of_f A x) (d_of_f A (next_u_m s))) (d_of_f A (s1_m s))"
  define r where "r = x_was_stages A (lambda_m s) (take (nat ?n) (k_m s))
                        (take (nat ?n) (t_m s)) (a, a, d_zero A, d_zero A)"
  let ?c0 = "\<lparr> acc_a = a, acc_b = a, acc_nua = d_zero A, acc_nub = d_zero A, acc_t = t_m s \<rparr>"
  have loop: "for_loop 0 ?n (x_was_body A (lambda_m s) (k_m s)) ?c0 =
      Inr \<lparr> acc_a = fst (fst r), acc_b = fst (snd (fst r)),
            acc_nua = fst (snd (snd (fst r))), acc_nub = snd (snd (snd (fst r))),
            acc_t = snd r @ drop (nat (max 0 ?n)) (t_m s) \<rparr>"
    using x_was_loop_spec[of 0 ?n "k_m s" ?c0 A "lambda_m s"] assms(2) lk lt
    by (simp add: Let_def r_def)
  have dr: "drop (nat (max 0 ?n)) (t_m s) = drop (nat ?n) (t_m s)"
    by (simp add: max_def)
  have eq: "x_was A x s = Inr (x_was_spec A x s)"
    using loop unfolding dr
    by (simp add: x_was_def x_was_spec_def Let_def a_def r_def)
  have lr: "length (snd r) = nat ?n"
    using assms(2) lk lt by (simp add: r_def length_x_was_stages)
  have t': "t_m (x_was_spec A x s) = snd r @ drop (nat ?n) (t_m s)"
    by (simp add: x_was_spec_def Let_def a_def r_def)
  have ok: "arrays_ok (x_was_spec A x s)"
    using assms(2) lk lt lr unfolding arrays_ok_def t'
    by (simp add: x_was_spec_def Let_def max_wapl_filt_order_def)
  have frame: "\<forall>i. ?n \<le> i \<and> 0 \<le> i \<and> i < 32 \<longrightarrow>
              t_m (x_was_spec A x s) ! nat i = t_m s ! nat i"
  proof (intro allI impI)
    fix i :: int assume i: "?n \<le> i \<and> 0 \<le> i \<and> i < 32"
    then have ni: "nat ?n \<le> nat i" "nat i < length (t_m s)" unfolding lt by linarith+
    show "t_m (x_was_spec A x s) ! nat i = t_m s ! nat i"
      unfolding t' by (rule nth_append_drop[OF lr ni])
  qed
  show ?thesis using eq ok frame by (simp add: x_was_spec_def Let_def)
qed

text \<open>
  Claim C2. On an object whose arrays have their 32 elements and whose order is at most
  32, \<open>x_was(x)\<close> returns the object that the stage-by-stage description gives
  (\<open>x_was_spec\<close>): \<open>y = x - pendingFeedback\<close>, \<open>a = b = y * scaleIn\<close>,
  \<open>nua = nub = 0\<close>; per active stage, in stage order, the all-pass on \<open>b\<close> that stores
  \<open>next_t\<close> as the stage's delay (one write per stage), the same all-pass on \<open>nub\<close>
  against the stage's delay, which by then holds \<open>next_t\<close>, without a second store,
  and the butterfly on \<open>(a, b)\<close> and on \<open>(nua, nub)\<close>; then
  \<open>pendingFeedback = nua * scaleOut\<close>. The delay entries of the inactive stages and the
  configuration are unchanged.
\<close>
theorem x_was_refines_spec:
  assumes "arrays_ok s" and "order_m s \<le> 32"
  shows "x_was A x s = Inr (x_was_spec A x s) \<and>
         arrays_ok (x_was_spec A x s) \<and>
         (\<forall>i. order_m s \<le> i \<and> 0 \<le> i \<and> i < 32 \<longrightarrow>
              t_m (x_was_spec A x s) ! nat i = t_m s ! nat i) \<and>
         order_m (x_was_spec A x s) = order_m s \<and>
         lambda_m (x_was_spec A x s) = lambda_m s \<and>
         k_m (x_was_spec A x s) = k_m s \<and>
         s1_m (x_was_spec A x s) = s1_m s \<and>
         s2_m (x_was_spec A x s) = s2_m s"
  by (rule x_was_eq_spec[OF assms])

theorem x_was_refines_spec_witness:
  "arrays_ok \<lparr> order_m = 2, lambda_m = 1/2, k_m = [1/4, - (3/20)] @ replicate 30 0,
               s1_m = 1, s2_m = 160/189, t_m = [1/2, 1/4] @ replicate 30 7,
               next_u_m = (1/8 :: real) \<rparr> \<and>
   x_was exact_arith 1
     \<lparr> order_m = 2, lambda_m = 1/2, k_m = [1/4, - (3/20)] @ replicate 30 0,
       s1_m = 1, s2_m = 160/189, t_m = [1/2, 1/4] @ replicate 30 7, next_u_m = 1/8 \<rparr>
   = Inr \<lparr> order_m = 2, lambda_m = 1/2, k_m = [1/4, - (3/20)] @ replicate 30 0,
           s1_m = 1, s2_m = 160/189, t_m = [9/8, - (5/32)] @ replicate 30 7,
           next_u_m = - (83/336) \<rparr>"
proof -
  let ?s = "\<lparr> order_m = 2, lambda_m = 1/2, k_m = [1/4, - (3/20)] @ replicate 30 0,
               s1_m = 1, s2_m = 160/189, t_m = [1/2, 1/4] @ replicate 30 7,
               next_u_m = (1/8 :: real) \<rparr>"
  have ok: "arrays_ok ?s" by (simp add: arrays_ok_def max_wapl_filt_order_def)
  have o: "order_m ?s \<le> 32" by simp
  have n2: "nat 2 = Suc (Suc 0)" by simp
  have v: "x_was_spec exact_arith 1 ?s =
      \<lparr> order_m = 2, lambda_m = 1/2, k_m = [1/4, - (3/20)] @ replicate 30 0,
           s1_m = 1, s2_m = 160/189, t_m = [9/8, - (5/32)] @ replicate 30 7,
           next_u_m = - (83/336) \<rparr>"
    by (simp add: x_was_spec_def n2 Let_def exact_arith_def)
  from x_was_refines_spec[OF ok o, of exact_arith 1]
  have "x_was exact_arith 1 ?s = Inr (x_was_spec exact_arith 1 ?s)" by (elim conjE)
  then show ?thesis using ok unfolding v by (intro conjI)
qed

section \<open>Shrinking and growing the order\<close>

lemma run_append:
  "run A (cs @ ds) s = (case run A cs s of Inl e \<Rightarrow> Inl e | Inr s' \<Rightarrow> run A ds s')"
  by (induction cs arbitrary: s) (auto split: sum.splits)

lemma set_params_ok:
  assumes "arrays_ok s"
    and "0 \<le> order_m s \<or> min ord 32 \<le> order_m s"
    and "min ord 32 \<le> int (length newk)"
  shows "\<exists>s'. set_params A lam ord newk s = Inr s' \<and> arrays_ok s' \<and>
           order_m s' = min ord 32 \<and>
           (\<forall>m < 32. t_m s' ! m =
              (if order_m s \<le> int m \<and> int m < ord then f_zero A else t_m s ! m))"
proof -
  from set_params_result[OF assms, of A lam]
  obtain ks ts nu where r:
    "length ks = 32" "length ts = 32"
    "\<forall>m < 32. ts ! m =
        (if order_m s \<le> int m \<and> int m < ord then f_zero A else t_m s ! m)"
    "for_loop 0 (min ord 32) (feedback_body A lam ks ts) (d_zero A, d_zero A) = Inr nu"
    "set_params A lam ord newk s =
             Inr (s\<lparr> k_m := ks, t_m := ts, lambda_m := lam, order_m := min ord 32,
                     s1_m := f_one A,
                     s2_m := f_of_d A (ddiv A (d_one A)
                               (steady_a A lam (take (nat (min ord 32)) ks))),
                     next_u_m := f_of_d A (dmul A (fst nu)
                       (d_of_f A (f_of_d A (ddiv A (d_one A)
                               (steady_a A lam (take (nat (min ord 32)) ks)))))) \<rparr>)"
    by blast
  show ?thesis using r(1,2,3) unfolding r(5)
    by (simp add: arrays_ok_def max_wapl_filt_order_def)
qed

lemma run_x_was_ok:
  assumes "arrays_ok s" and "order_m s \<le> 32"
  shows "\<exists>s'. run A (map XWas xs) s = Inr s' \<and> arrays_ok s' \<and> order_m s' = order_m s"
  using assms
proof (induction xs arbitrary: s)
  case Nil
  then show ?case by simp
next
  case (Cons x xs)
  from x_was_eq_spec[OF Cons.prems, of A x]
  have s1: "x_was A x s = Inr (x_was_spec A x s)" "arrays_ok (x_was_spec A x s)"
    "order_m (x_was_spec A x s) = order_m s" by simp_all
  from Cons.IH[OF s1(2)] s1(3) Cons.prems(2)
  obtain s' where "run A (map XWas xs) (x_was_spec A x s) = Inr s'" "arrays_ok s'"
    "order_m s' = order_m s" by auto
  then show ?case using s1(1) by simp
qed

lemma set_params_t_cong:
  assumes "for_loop (order_m s) (min ord 32) (zero_body A) ts =
           for_loop (order_m s) (min ord 32) (zero_body A) (t_m s)"
  shows "set_params A lam ord newk (s\<lparr> t_m := ts \<rparr>) = set_params A lam ord newk s"
  using assms by (simp add: set_params_def max_wapl_filt_order_def Let_def cong: sum.case_cong)

lemma zero_loop_overwrites:
  assumes "0 \<le> i \<or> n \<le> i" and "n \<le> 32" and "length ts = length ts'"
    and "\<forall>m < length ts. \<not> (i \<le> int m \<and> int m < n) \<longrightarrow> ts ! m = ts' ! m"
  shows "for_loop i n (zero_body A) ts = for_loop i n (zero_body A) ts'"
proof -
  from zero_loop[OF assms(1,2), of A ts]
  obtain c where c: "for_loop i n (zero_body A) ts = Inr c" "length c = length ts"
    "\<forall>m < length ts. c ! m = (if i \<le> int m \<and> int m < n then f_zero A else ts ! m)"
    by blast
  from zero_loop[OF assms(1,2), of A ts']
  obtain c' where c': "for_loop i n (zero_body A) ts' = Inr c'" "length c' = length ts'"
    "\<forall>m < length ts'. c' ! m = (if i \<le> int m \<and> int m < n then f_zero A else ts' ! m)"
    by blast
  have "c = c'" using c(2,3) c'(2,3) assms(3,4) by (intro nth_equalityI) auto
  then show ?thesis using c(1) c'(1) by simp
qed

text \<open>
  Claim C4. Take an object with its arrays of 32 elements and a stored order that is not
  negative, and a history \<open>set_params\<close> with order \<open>N\<close>, calls of \<open>x_was\<close>, \<open>set_params\<close>
  with a smaller order \<open>M\<close> (not negative), calls of \<open>x_was\<close>, \<open>set_params\<close> with a larger
  order \<open>P\<close>, each \<open>set_params\<close> with the coefficients it reads. The history runs, and
  right after the growing call every delay entry \<open>t[i]\<close> with \<open>M \<le> i < P\<close> (and
  \<open>i < 32\<close>) is zero. No value these entries held before the growing call has any
  influence: with any other contents at the indices in \<open>[M, P)\<close> the growing call
  returns the same object, so every later computation is the same.
\<close>
theorem shrink_then_grow_zero_history:
  assumes "arrays_ok s" and "0 \<le> order_m s"
    and "0 \<le> M" and "M < N" and "M < P"
    and "min N 32 \<le> int (length kN)"
    and "min M 32 \<le> int (length kM)"
    and "min P 32 \<le> int (length kP)"
  shows "\<exists>s1 s'.
           run A (SetParams lamN N kN # map XWas xs @
                    SetParams lamM M kM # map XWas ys) s = Inr s1 \<and>
           run A (SetParams lamN N kN # map XWas xs @
                    SetParams lamM M kM # map XWas ys @ [SetParams lamP P kP]) s = Inr s' \<and>
           set_params A lamP P kP s1 = Inr s' \<and>
           (\<forall>i. M \<le> i \<and> i < P \<and> i < 32 \<longrightarrow> t_m s' ! nat i = f_zero A) \<and>
           (\<forall>ts. length ts = 32 \<and>
                 (\<forall>m < 32. \<not> (M \<le> int m \<and> int m < P) \<longrightarrow> ts ! m = t_m s1 ! m) \<longrightarrow>
                 set_params A lamP P kP (s1\<lparr> t_m := ts \<rparr>) = Inr s')"
proof -
  have oN: "0 \<le> order_m s \<or> min N 32 \<le> order_m s" using assms(2) by simp
  from set_params_ok[OF assms(1) oN assms(6), of A lamN]
  obtain sa where sa: "set_params A lamN N kN s = Inr sa" "arrays_ok sa"
    "order_m sa = min N 32" by blast
  have "order_m sa \<le> 32" using sa(3) by simp
  from run_x_was_ok[OF sa(2) this, of A xs]
  obtain sb where sb: "run A (map XWas xs) sa = Inr sb" "arrays_ok sb"
    "order_m sb = order_m sa" by blast
  have oM: "0 \<le> order_m sb \<or> min M 32 \<le> order_m sb"
    using sb(3) sa(3) assms(3,4) by simp
  from set_params_ok[OF sb(2) oM assms(7), of A lamM]
  obtain sc where sc: "set_params A lamM M kM sb = Inr sc" "arrays_ok sc"
    "order_m sc = min M 32" by blast
  have "order_m sc \<le> 32" using sc(3) by simp
  from run_x_was_ok[OF sc(2) this, of A ys]
  obtain s1 where s1: "run A (map XWas ys) sc = Inr s1" "arrays_ok s1"
    "order_m s1 = order_m sc" by blast
  have o1: "order_m s1 = min M 32" using s1(3) sc(3) by simp
  have oP: "0 \<le> order_m s1 \<or> min P 32 \<le> order_m s1" using o1 assms(3) by simp
  from set_params_ok[OF s1(2) oP assms(8), of A lamP]
  obtain s' where s': "set_params A lamP P kP s1 = Inr s'"
    "\<forall>m < 32. t_m s' ! m =
        (if order_m s1 \<le> int m \<and> int m < P then f_zero A else t_m s1 ! m)"
    by blast
  have r1: "run A (SetParams lamN N kN # map XWas xs @
                    SetParams lamM M kM # map XWas ys) s = Inr s1"
    using sa(1) sb(1) sc(1) s1(1) by (simp add: run_append)
  have r2: "run A (SetParams lamN N kN # map XWas xs @
                    SetParams lamM M kM # map XWas ys @ [SetParams lamP P kP]) s = Inr s'"
    using sa(1) sb(1) sc(1) s1(1) s'(1) by (simp add: run_append)
  have z: "\<forall>i. M \<le> i \<and> i < P \<and> i < 32 \<longrightarrow> t_m s' ! nat i = f_zero A"
  proof (intro allI impI)
    fix i :: int assume i: "M \<le> i \<and> i < P \<and> i < 32"
    then have n: "nat i < 32" "int (nat i) = i" using assms(3) by linarith+
    have "order_m s1 \<le> i" using o1 i by simp
    then show "t_m s' ! nat i = f_zero A" using s'(2)[rule_format, OF n(1)] n(2) i by simp
  qed
  have lt1: "length (t_m s1) = 32"
    using s1(2) by (simp add: arrays_ok_def max_wapl_filt_order_def)
  have ni: "set_params A lamP P kP (s1\<lparr> t_m := ts \<rparr>) = Inr s'"
    if ts: "length ts = 32 \<and>
            (\<forall>m < 32. \<not> (M \<le> int m \<and> int m < P) \<longrightarrow> ts ! m = t_m s1 ! m)" for ts
  proof -
    have agree: "\<forall>m < length ts. \<not> (order_m s1 \<le> int m \<and> int m < min P 32) \<longrightarrow>
                   ts ! m = t_m s1 ! m"
    proof (intro allI impI)
      fix m assume m: "m < length ts" and out: "\<not> (order_m s1 \<le> int m \<and> int m < min P 32)"
      have m32: "m < 32" using m ts by simp
      then have "\<not> (M \<le> int m \<and> int m < P)" using out o1 by auto
      then show "ts ! m = t_m s1 ! m" using ts m32 by simp
    qed
    have "for_loop (order_m s1) (min P 32) (zero_body A) ts =
          for_loop (order_m s1) (min P 32) (zero_body A) (t_m s1)"
      using oP ts lt1 agree by (intro zero_loop_overwrites) simp_all
    from set_params_t_cong[OF this] s'(1) show ?thesis by simp
  qed
  show ?thesis using r1 r2 s'(1) z ni by blast
qed

theorem shrink_then_grow_zero_history_witness:
  "arrays_ok (waplns_ctor exact_arith (replicate 32 0) (replicate 32 7)) \<and>
   (\<exists>s'. run exact_arith
            (SetParams (1/2) 3 [1/4, 1/4, 1/4] # map XWas [1] @
               SetParams (1/2) 1 [1/4] # map XWas [1] @ [SetParams (1/2) 3 [1/4, 1/4, 1/4]])
            (waplns_ctor exact_arith (replicate 32 0) (replicate 32 7)) = Inr s' \<and>
          t_m s' ! 1 = 0 \<and> t_m s' ! 2 = 0)"
proof -
  let ?s = "waplns_ctor exact_arith (replicate 32 0) (replicate 32 (7::real))"
  have ok: "arrays_ok ?s"
    by (simp add: arrays_ok_def waplns_ctor_def max_wapl_filt_order_def)
  have o: "0 \<le> order_m ?s" by (simp add: waplns_ctor_def)
  have z: "f_zero exact_arith = 0" by (simp add: exact_arith_def)
  from shrink_then_grow_zero_history[OF ok o, of 1 3 3 "[1/4, 1/4, 1/4]" "[1/4]"
      "[1/4, 1/4, 1/4]" exact_arith "1/2" "[1]" "1/2" "[1]" "1/2"]
  obtain s' where s':
    "run exact_arith (SetParams (1/2) 3 [1/4, 1/4, 1/4] # map XWas [1] @
               SetParams (1/2) 1 [1/4] # map XWas [1] @ [SetParams (1/2) 3 [1/4, 1/4, 1/4]])
       ?s = Inr s'"
    "\<forall>i. 1 \<le> i \<and> i < 3 \<and> i < 32 \<longrightarrow> t_m s' ! nat i = f_zero exact_arith"
    by auto
  have "t_m s' ! 1 = 0" using s'(2)[rule_format, of 1] by (simp add: z)
  moreover have "t_m s' ! 2 = 0" using s'(2)[rule_format, of 2] by (simp add: z)
  ultimately show ?thesis using ok s'(1) by blast
qed

section \<open>warp_gain\<close>

lemma set_params_scales:
  assumes "arrays_ok s"
    and "0 \<le> order_m s \<or> min ord 32 \<le> order_m s"
    and "min ord 32 \<le> int (length newk)"
  shows "\<exists>s'. set_params A lam ord newk s = Inr s' \<and>
           s1_m s' = f_one A \<and>
           s2_m s' = f_of_d A (ddiv A (d_one A)
                       (steady_a A lam (take (nat (min ord 32)) newk)))"
proof -
  from set_params_result[OF assms, of A lam]
  obtain ks ts nu where r:
    "length ks = 32"
    "\<forall>m < 32. ks ! m = (if int m < ord then newk ! m else k_m s ! m)"
    "for_loop 0 (min ord 32) (feedback_body A lam ks ts) (d_zero A, d_zero A) = Inr nu"
    "set_params A lam ord newk s =
             Inr (s\<lparr> k_m := ks, t_m := ts, lambda_m := lam, order_m := min ord 32,
                     s1_m := f_one A,
                     s2_m := f_of_d A (ddiv A (d_one A)
                               (steady_a A lam (take (nat (min ord 32)) ks))),
                     next_u_m := f_of_d A (dmul A (fst nu)
                       (d_of_f A (f_of_d A (ddiv A (d_one A)
                               (steady_a A lam (take (nat (min ord 32)) ks)))))) \<rparr>)"
    by blast
  have "take (nat (min ord 32)) ks = take (nat (min ord 32)) newk"
  proof (rule take_eq_pointwise)
    show "nat (min ord 32) \<le> length ks" using r(1) by simp
    show "nat (min ord 32) \<le> length newk" using assms(3) by simp
    show "\<forall>m < nat (min ord 32). ks ! m = newk ! m" using r(2) by auto
  qed
  then show ?thesis using r(4) by simp
qed

text \<open>\<open>s1_\<close> is 1 in every object: the constructor and \<open>precompute_derived_params\<close> store
  1, and nothing else stores into it.\<close>

lemma set_params_s1:
  "set_params A lam ord newk s = Inr s' \<Longrightarrow> s1_m s' = f_one A"
  by (auto simp: set_params_def precompute_derived_params_def Let_def split: sum.splits)

lemma call_step_s1:
  assumes "call_step A c s = Inr s'" and "s1_m s = f_one A"
  shows "s1_m s' = f_one A"
proof (cases c)
  case (SetParams lam ord newk)
  then show ?thesis using assms(1) set_params_s1 by simp
next
  case (SetParamsIter lam ord it temp0)
  then show ?thesis using assms(1) set_params_s1
    by (auto simp: set_params_iter_def Let_def split: sum.splits)
next
  case ResetState
  then show ?thesis using assms by (auto simp: reset_state_def split: sum.splits)
next
  case (XWas x)
  then show ?thesis using assms by (auto simp: x_was_def Let_def split: sum.splits)
qed

lemma run_s1:
  assumes "run A calls s = Inr s'" and "s1_m s = f_one A"
  shows "s1_m s' = f_one A"
  using assms
proof (induction calls arbitrary: s)
  case Nil
  then show ?case by simp
next
  case (Cons c calls)
  then obtain s1 where s1: "call_step A c s = Inr s1" "run A calls s1 = Inr s'"
    by (auto split: sum.splits)
  from call_step_s1[OF s1(1) Cons.prems(2)] have "s1_m s1 = f_one A" .
  from Cons.IH[OF s1(2) this] show ?case .
qed

lemma warp_gain_s1_one:
  assumes "unit_laws A" and "\<forall>x. fmul A (f_one A) x = x" and "s1_m s = f_one A"
  shows "warp_gain A s = f_of_d A (ddiv A (d_one A) (d_of_f A (fmul A (s1_m s) (s2_m s))))"
  using assms by (simp add: warp_gain_def unit_laws_def)

text \<open>
  Claim C3, as the code has it. In an arithmetic whose operations on the constants 0 and
  1 are exact and where multiplying by 1 is exact (IEEE 754 is one), in every object that
  a history of calls on a constructed object leaves, \<open>warp_gain()\<close> equals
  \<open>1 / (scaleIn * scaleOut)\<close>, the quotient taken in double and returned as a float; and
  after a call of \<open>set_params\<close> that runs without undefined behaviour the product
  \<open>scaleIn * scaleOut\<close> equals \<open>1 / a\<close>, the quotient taken in double and stored as a
  float, where \<open>a\<close> is the accumulator of section 4.2. The product is the reciprocal
  of \<open>a\<close>, not \<open>a\<close>.
\<close>
theorem warp_gain_reciprocal_of_scale_product:
  assumes "unit_laws A" and "\<forall>x. fmul A (f_one A) x = x"
  shows "(run A calls (waplns_ctor A k0 t0) = Inr s \<longrightarrow>
            warp_gain A s =
              f_of_d A (ddiv A (d_one A) (d_of_f A (fmul A (s1_m s) (s2_m s))))) \<and>
         (arrays_ok s0 \<and> (0 \<le> order_m s0 \<or> min ord 32 \<le> order_m s0) \<and>
          min ord 32 \<le> int (length newk) \<longrightarrow>
            (\<exists>s'. set_params A lam ord newk s0 = Inr s' \<and>
               fmul A (s1_m s') (s2_m s') =
                 f_of_d A (ddiv A (d_one A) (steady_a A lam (take (nat (min ord 32)) newk))) \<and>
               warp_gain A s' =
                 f_of_d A (ddiv A (d_one A) (d_of_f A (fmul A (s1_m s') (s2_m s'))))))"
proof (intro conjI impI)
  assume "run A calls (waplns_ctor A k0 t0) = Inr s"
  then have "s1_m s = f_one A" by (rule run_s1) (simp add: waplns_ctor_def)
  then show "warp_gain A s =
      f_of_d A (ddiv A (d_one A) (d_of_f A (fmul A (s1_m s) (s2_m s))))"
    by (rule warp_gain_s1_one[OF assms])
next
  assume h: "arrays_ok s0 \<and> (0 \<le> order_m s0 \<or> min ord 32 \<le> order_m s0) \<and>
          min ord 32 \<le> int (length newk)"
  from set_params_scales[of s0 ord newk A lam] h
  obtain s' where s': "set_params A lam ord newk s0 = Inr s'"
    "s1_m s' = f_one A"
    "s2_m s' = f_of_d A (ddiv A (d_one A) (steady_a A lam (take (nat (min ord 32)) newk)))"
    by blast
  have p: "fmul A (s1_m s') (s2_m s') =
      f_of_d A (ddiv A (d_one A) (steady_a A lam (take (nat (min ord 32)) newk)))"
    using assms(2) s'(2,3) by simp
  have w: "warp_gain A s' =
      f_of_d A (ddiv A (d_one A) (d_of_f A (fmul A (s1_m s') (s2_m s'))))"
    by (rule warp_gain_s1_one[OF assms s'(2)])
  show "\<exists>s'. set_params A lam ord newk s0 = Inr s' \<and>
               fmul A (s1_m s') (s2_m s') =
                 f_of_d A (ddiv A (d_one A) (steady_a A lam (take (nat (min ord 32)) newk))) \<and>
               warp_gain A s' =
                 f_of_d A (ddiv A (d_one A) (d_of_f A (fmul A (s1_m s') (s2_m s'))))"
    using s'(1) p w by blast
qed

theorem warp_gain_reciprocal_of_scale_product_witness:
  "unit_laws exact_arith \<and>
   (\<forall>x. fmul exact_arith (f_one exact_arith) x = x) \<and>
   arrays_ok (waplns_ctor exact_arith (replicate 32 0) (replicate 32 0)) \<and>
   (\<exists>s. run exact_arith [SetParams (1/2) 2 [1/4, - (3/20)], XWas 1, ResetState]
           (waplns_ctor exact_arith (replicate 32 0) (replicate 32 0)) = Inr s \<and>
        warp_gain exact_arith s = 1 / (s1_m s * s2_m s)) \<and>
   (\<exists>s'. set_params exact_arith (1/2) 2 [1/4, - (3/20)]
            (waplns_ctor exact_arith (replicate 32 0) (replicate 32 0)) = Inr s' \<and>
          s1_m s' * s2_m s' = 160 / 189 \<and>
          warp_gain exact_arith s' = 1 / (s1_m s' * s2_m s'))"
proof -
  let ?s = "waplns_ctor exact_arith (replicate 32 0) (replicate 32 (0::real))"
  let ?calls = "[SetParams (1/2) 2 [1/4, - (3/20)], XWas 1, ResetState :: real call]"
  have laws: "unit_laws exact_arith" by (simp add: unit_laws_def exact_arith_def)
  have one: "\<forall>x. fmul exact_arith (f_one exact_arith) x = x" by (simp add: exact_arith_def)
  have ok: "arrays_ok ?s"
    by (simp add: arrays_ok_def waplns_ctor_def max_wapl_filt_order_def)
  have pre: "arrays_ok ?s \<and> (0 \<le> order_m ?s \<or> min 2 32 \<le> order_m ?s) \<and>
             min 2 32 \<le> int (length [1/4, - (3/20) :: real])"
    using ok by (simp add: waplns_ctor_def)
  have tk: "take (nat (min 2 32)) [1/4, - (3/20) :: real] = [1/4, - (3/20)]" by simp
  have a: "steady_a exact_arith (1/2) [1/4, - (3/20)] = 189 / 160"
    by (simp add: steady_a_def exact_arith_def Let_def)
  have rd: "f_of_d exact_arith (ddiv exact_arith (d_one exact_arith) x) = 1 / x" for x
    by (simp add: exact_arith_def)
  have rm: "d_of_f exact_arith x = x" for x
    by (simp add: exact_arith_def)
  have fm: "fmul exact_arith x y = x * y" for x y
    by (simp add: exact_arith_def)
  note inst = warp_gain_reciprocal_of_scale_product[OF laws one]
  have "\<not> isl (run exact_arith ?calls ?s)" by code_simp
  then obtain s where s: "run exact_arith ?calls ?s = Inr s"
    by (cases "run exact_arith ?calls ?s") auto
  from inst[of ?calls "replicate 32 0" "replicate 32 0" s, THEN conjunct1] s
  have w1: "warp_gain exact_arith s = 1 / (s1_m s * s2_m s)"
    unfolding fm rm rd by simp
  from inst[of "[]" "[]" "[]" ?s ?s 2 "[1/4, - (3/20)]" "1/2", THEN conjunct2] pre
  obtain s' where s': "set_params exact_arith (1/2) 2 [1/4, - (3/20)] ?s = Inr s'"
    "s1_m s' * s2_m s' = 1 / (189 / 160)"
    "warp_gain exact_arith s' = 1 / (s1_m s' * s2_m s')"
    unfolding fm rm rd tk a by blast
  have "s1_m s' * s2_m s' = 160 / 189" using s'(2) by simp
  then show ?thesis using laws one ok s w1 s'(1,3) by blast
qed

text \<open>In exact arithmetic the two reciprocals cancel, and \<open>warp_gain()\<close> is the
  accumulator \<open>a\<close> itself, when \<open>a\<close> is not zero.\<close>

lemma warp_gain_exact:
  assumes "arrays_ok s"
    and "0 \<le> order_m s \<or> min ord 32 \<le> order_m s"
    and "min ord 32 \<le> int (length newk)"
    and "steady_a exact_arith lam (take (nat (min ord 32)) newk) \<noteq> 0"
  shows "\<exists>s'. set_params exact_arith lam ord newk s = Inr s' \<and>
           warp_gain exact_arith s' = steady_a exact_arith lam (take (nat (min ord 32)) newk)"
proof -
  from set_params_scales[OF assms(1-3), of exact_arith lam]
  obtain s' where s': "set_params exact_arith lam ord newk s = Inr s'"
    "s1_m s' = f_one exact_arith"
    "s2_m s' = f_of_d exact_arith (ddiv exact_arith (d_one exact_arith)
                       (steady_a exact_arith lam (take (nat (min ord 32)) newk)))"
    by blast
  have s1: "s1_m s' = 1" using s'(2) by (simp add: exact_arith_def)
  have s2: "s2_m s' = 1 / steady_a exact_arith lam (take (nat (min ord 32)) newk)"
    using s'(3) by (simp add: exact_arith_def)
  have wg: "warp_gain exact_arith s' = 1 / s1_m s' / s2_m s'"
    by (simp add: warp_gain_def exact_arith_def)
  have "warp_gain exact_arith s' = steady_a exact_arith lam (take (nat (min ord 32)) newk)"
    unfolding wg s1 s2 using assms(4) by simp
  then show ?thesis using s'(1) by blast
qed

text \<open>With the coefficients of the repository's test program the product of the scales is
  \<open>160/189\<close> and the accumulator \<open>a\<close> is \<open>189/160\<close>.\<close>

theorem scale_product_counterexample:
  "map_sum id s1_m (set_params exact_arith (1/2) 2 [1/4, - (3/20)]
      (waplns_ctor exact_arith (replicate 32 0) (replicate 32 0))) = Inr 1 \<and>
   map_sum id s2_m (set_params exact_arith (1/2) 2 [1/4, - (3/20)]
      (waplns_ctor exact_arith (replicate 32 0) (replicate 32 0))) = Inr (160 / 189) \<and>
   steady_a exact_arith (1/2) [1/4, - (3/20)] = 189 / 160 \<and>
   (1 :: real) * (160 / 189) \<noteq> 189 / 160"
proof -
  let ?s = "waplns_ctor exact_arith (replicate 32 0) (replicate 32 (0::real))"
  have ok: "arrays_ok ?s"
    by (simp add: arrays_ok_def waplns_ctor_def max_wapl_filt_order_def)
  have o: "0 \<le> order_m ?s \<or> min 2 32 \<le> order_m ?s" by (simp add: waplns_ctor_def)
  have e: "min 2 32 \<le> int (length [1/4, - (3/20) :: real])" by simp
  have tk: "take (nat (min 2 32)) [1/4, - (3/20) :: real] = [1/4, - (3/20)]" by simp
  have a: "steady_a exact_arith (1/2) [1/4, - (3/20)] = 189 / 160"
    by (simp add: steady_a_def exact_arith_def Let_def)
  from set_params_scales[OF ok o e, of exact_arith "1/2"]
  obtain s' where s': "set_params exact_arith (1/2) 2 [1/4, - (3/20)] ?s = Inr s'"
    "s1_m s' = f_one exact_arith"
    "s2_m s' = f_of_d exact_arith (ddiv exact_arith (d_one exact_arith)
                 (steady_a exact_arith (1/2) (take (nat (min 2 32)) [1/4, - (3/20)])))"
    by blast
  have "s1_m s' = 1" using s'(2) by (simp add: exact_arith_def)
  moreover have "s2_m s' = 160 / 189" using s'(3) unfolding tk a by (simp add: exact_arith_def)
  ultimately show ?thesis using a unfolding s'(1) by simp
qed

end
